theory Spec2Isabelle
  imports Main "HOL-Library.Product_Lexorder"
begin

section \<open>Data model of the segment tree\<close>

text \<open>
  Indices are the unsigned type \<open>msize_t\<close>. They are modelled as natural numbers; a vector
  is taken to hold at most \<open>mnpos\<close> elements, so that \<open>size()\<close> does not wrap.

  Modelled from the spec: the sentinel \<open>mnpos\<close> ("no parent") is declared in a header that
  is not part of the sources. It is the largest value of the index type, here the largest
  32-bit unsigned number.
\<close>

type_synonym msize_t = nat

definition mnpos :: msize_t where
  "mnpos = 4294967295"

text \<open>
  Modelled from the spec: a segment is \<open>{id, proximal point, distal point, tag}\<close>. The point
  type is opaque and is a type parameter; where the code compares points, it is a linear
  order.
\<close>

record 'p msegment =
  seg_id :: msize_t
  prox :: 'p
  dist :: 'p
  tag :: int

text \<open>
  Modelled from the spec: the per-segment child counter of the class declaration (not part
  of the sources). A segment is a fork when the counter is at least two and terminal when
  it is zero.
\<close>

datatype child_prop = child_prop (child_count: nat)

definition increment :: "child_prop \<Rightarrow> child_prop" where
  "increment c = child_prop (Suc (child_count c))"

definition prop_is_fork :: "child_prop \<Rightarrow> bool" where
  "prop_is_fork c \<longleftrightarrow> child_count c \<ge> 2"

definition prop_is_terminal :: "child_prop \<Rightarrow> bool" where
  "prop_is_terminal c \<longleftrightarrow> child_count c = 0"

text \<open>The three private vectors of \<open>segment_tree\<close>.\<close>

record 'p segment_tree =
  segments :: "'p msegment list"
  parents :: "msize_t list"
  seg_children :: "child_prop list"

text \<open>
  The exceptions of the code, and \<open>out_of_range\<close> for a vector read outside the vector
  (undefined behaviour in the source).
\<close>

datatype error =
    invalid_segment_parent msize_t msize_t
  | no_such_segment msize_t
  | unpruned_child msize_t msize_t int
  | out_of_range msize_t

definition empty_tree :: "'p segment_tree" where
  "empty_tree = \<lparr>segments = [], parents = [], seg_children = []\<rparr>"

definition tree_size :: "'p segment_tree \<Rightarrow> msize_t" where
  "tree_size t = length (segments t)"

section \<open>Construction and queries\<close>

text \<open>
  \<open>append\<close> mutates the tree; the model returns the thrown error or the new index, together
  with the tree after the call.
\<close>

definition append4 ::
  "'p segment_tree \<Rightarrow> msize_t \<Rightarrow> 'p \<Rightarrow> 'p \<Rightarrow> int \<Rightarrow> (error + msize_t) \<times> 'p segment_tree" where
  "append4 t p prx dst tg =
     (if p \<ge> tree_size t \<and> p \<noteq> mnpos then (Inl (invalid_segment_parent p (tree_size t)), t)
      else
        let ident = tree_size t;
            t1 = t\<lparr>segments := segments t @ [\<lparr>seg_id = ident, prox = prx, dist = dst, tag = tg\<rparr>]\<rparr>;
            t2 = t1\<lparr>parents := parents t1 @ [p]\<rparr>;
            t3 = t2\<lparr>seg_children := seg_children t2 @ [child_prop 0]\<rparr>;
            t4 = (if p \<noteq> mnpos
                  then t3\<lparr>seg_children := (seg_children t3)[p := increment (seg_children t3 ! p)]\<rparr>
                  else t3)
        in (Inr ident, t4))"

definition append3 ::
  "'p segment_tree \<Rightarrow> msize_t \<Rightarrow> 'p \<Rightarrow> int \<Rightarrow> (error + msize_t) \<times> 'p segment_tree" where
  "append3 t p dst tg =
     (if p = mnpos then (Inl (invalid_segment_parent p (tree_size t)), t)
      else if p \<ge> tree_size t then (Inl (invalid_segment_parent p (tree_size t)), t)
      else append4 t p (dist (segments t ! p)) dst tg)"

definition is_fork :: "'p segment_tree \<Rightarrow> msize_t \<Rightarrow> error + bool" where
  "is_fork t i = (if i \<ge> tree_size t then Inl (no_such_segment i)
                  else Inr (prop_is_fork (seg_children t ! i)))"

definition is_terminal :: "'p segment_tree \<Rightarrow> msize_t \<Rightarrow> error + bool" where
  "is_terminal t i = (if i \<ge> tree_size t then Inl (no_such_segment i)
                      else Inr (prop_is_terminal (seg_children t ! i)))"

definition is_root :: "'p segment_tree \<Rightarrow> msize_t \<Rightarrow> error + bool" where
  "is_root t i = (if i \<ge> tree_size t then Inl (no_such_segment i)
                  else Inr (parents t ! i = mnpos))"

text \<open>The trees that a sequence of successful \<open>append\<close> calls builds from the empty tree.\<close>

inductive reachable :: "'p segment_tree \<Rightarrow> bool" where
  reachable_empty: "reachable empty_tree"
| reachable_append: "reachable t \<Longrightarrow> append4 t p prx dst tg = (Inr i, t') \<Longrightarrow> reachable t'"

text \<open>
  The class invariant, as a check on the three vectors: they have one length, every segment
  carries its position as id, and a parent is the sentinel or an earlier index.
\<close>

definition tree_inv :: "'p segment_tree \<Rightarrow> bool" where
  "tree_inv t \<longleftrightarrow>
     length (parents t) = length (segments t) \<and>
     length (seg_children t) = length (segments t) \<and>
     (\<forall>i < length (segments t). seg_id (segments t ! i) = i) \<and>
     (\<forall>i < length (segments t). parents t ! i = mnpos \<or> parents t ! i < i)"

section \<open>Point transforms\<close>

text \<open>The isometry is given by its action on points.\<close>

definition apply_iso :: "'p segment_tree \<Rightarrow> ('p \<Rightarrow> 'p) \<Rightarrow> 'p segment_tree" where
  "apply_iso tree isom =
     tree\<lparr>segments := map (\<lambda>seg. seg\<lparr>prox := isom (prox seg), dist := isom (dist seg)\<rparr>) (segments tree)\<rparr>"

section \<open>Children index and subtree copy\<close>

text \<open>
  \<open>std::map::operator[]\<close> yields an empty vector for a key that was never inserted, so the
  map is a total function with default \<open>[]\<close>.
\<close>

definition tree_to_children :: "'p segment_tree \<Rightarrow> msize_t \<Rightarrow> msize_t list" where
  "tree_to_children tree =
     (let result = fold (\<lambda>ix m. m(parents tree ! ix := m (parents tree ! ix) @ [ix]))
                        [0..<tree_size tree] (\<lambda>_. [])
      in (\<lambda>k. sort (result k)))"

datatype node_t = node_t (parent: msize_t) (node_id: msize_t)

definition yes :: "node_t \<Rightarrow> bool" where
  "yes _ = True"

text \<open>
  The loop of \<open>copy_subtree_if\<close>. The stack \<open>todo\<close> is a list whose head is the back of the
  vector. The read \<open>segments[node.id]\<close> is checked.
\<close>

partial_function (option) copy_loop ::
  "(msize_t \<Rightarrow> msize_t list) \<Rightarrow> 'p msegment list \<Rightarrow> (node_t \<Rightarrow> bool) \<Rightarrow> node_t list \<Rightarrow>
   'p segment_tree \<Rightarrow> (error + 'p segment_tree) option" where
  "copy_loop children_of segs predicate todo result =
     (case todo of
        [] \<Rightarrow> Some (Inr result)
      | node # rest \<Rightarrow>
          if \<not> predicate node then copy_loop children_of segs predicate rest result
          else if node_id node \<ge> length segs then Some (Inl (out_of_range (node_id node)))
          else
            let segment = segs ! node_id node in
            (case append4 result (parent node) (prox segment) (dist segment) (tag segment) of
               (Inl e, _) \<Rightarrow> Some (Inl e)
             | (Inr current, result') \<Rightarrow>
                 copy_loop children_of segs predicate
                   (rev (map (node_t current) (children_of (node_id node))) @ rest) result'))"

declare copy_loop.simps [code]

definition copy_subtree_if ::
  "'p segment_tree \<Rightarrow> node_t \<Rightarrow> (node_t \<Rightarrow> bool) \<Rightarrow> 'p segment_tree \<Rightarrow>
   (error + 'p segment_tree) option" where
  "copy_subtree_if tree start predicate init =
     copy_loop (tree_to_children tree) (segments tree) predicate [start] init"

text \<open>The loop of \<open>split_at\<close> over the roots, each copy extending \<open>pre\<close>.\<close>

fun copy_roots ::
  "'p segment_tree \<Rightarrow> msize_t \<Rightarrow> msize_t list \<Rightarrow> 'p segment_tree \<Rightarrow>
   (error + 'p segment_tree) option" where
  "copy_roots tree at [] pre = Some (Inr pre)"
| "copy_roots tree at (root # roots) pre =
     (case copy_subtree_if tree (node_t mnpos root) (\<lambda>node. node_id node \<noteq> at) pre of
        None \<Rightarrow> None
      | Some (Inl e) \<Rightarrow> Some (Inl e)
      | Some (Inr pre') \<Rightarrow> copy_roots tree at roots pre')"

definition split_at ::
  "'p segment_tree \<Rightarrow> msize_t \<Rightarrow> (error + 'p segment_tree \<times> 'p segment_tree) option" where
  "split_at tree at =
     (if at \<ge> tree_size tree \<or> at = mnpos
      then Some (Inl (invalid_segment_parent at (tree_size tree)))
      else
        (case copy_subtree_if tree (node_t mnpos at) yes empty_tree of
           None \<Rightarrow> None
         | Some (Inl e) \<Rightarrow> Some (Inl e)
         | Some (Inr post) \<Rightarrow>
             let roots = filter (\<lambda>i. is_root tree i = Inr True) [0..<length (segments tree)] in
             (case copy_roots tree at roots empty_tree of
                None \<Rightarrow> None
              | Some (Inl e) \<Rightarrow> Some (Inl e)
              | Some (Inr pre) \<Rightarrow> Some (Inr (pre, post)))))"

definition join_at ::
  "'p segment_tree \<Rightarrow> msize_t \<Rightarrow> 'p segment_tree \<Rightarrow> (error + 'p segment_tree) option" where
  "join_at lhs at rhs =
     (if at \<ge> tree_size lhs \<and> at \<noteq> mnpos
      then Some (Inl (invalid_segment_parent at (tree_size lhs)))
      else copy_subtree_if rhs (node_t at 0) yes lhs)"

section \<open>Structural equivalence\<close>

text \<open>
  Modelled from the spec: the order on segments with the id set to zero is the lexicographic
  order on (proximal, distal, tag). \<open>std::sort\<close> is modelled by insertion sort, which keeps
  segments that compare equal in their order.
\<close>

definition seg_key :: "'p msegment \<Rightarrow> 'p \<times> 'p \<times> int" where
  "seg_key s = (prox s, dist s, tag s)"

definition fetch_children ::
  "msize_t \<Rightarrow> ('p::linorder) msegment list \<Rightarrow> (msize_t \<Rightarrow> msize_t list) \<Rightarrow> 'p msegment list" where
  "fetch_children cursor segs children_of =
     sort_key seg_key (map (\<lambda>ix. segs ! ix) (children_of cursor))"

text \<open>
  The inner loop of \<open>equivalent\<close> over two lists of one length: \<open>None\<close> at the first
  mismatch, else the pairs it has put on the stack, in order.
\<close>

fun match_children ::
  "'p msegment list \<Rightarrow> 'p msegment list \<Rightarrow> (msize_t \<times> msize_t) list option" where
  "match_children (x # xs) (y # ys) =
     (if prox x \<noteq> prox y \<or> dist x \<noteq> dist y \<or> tag x \<noteq> tag y then None
      else map_option (\<lambda>ps. (seg_id x, seg_id y) # ps) (match_children xs ys))"
| "match_children _ _ = Some []"

partial_function (option) equivalent_loop ::
  "('p::linorder) msegment list \<Rightarrow> (msize_t \<Rightarrow> msize_t list) \<Rightarrow>
   'p msegment list \<Rightarrow> (msize_t \<Rightarrow> msize_t list) \<Rightarrow>
   (msize_t \<times> msize_t) list \<Rightarrow> bool option" where
  "equivalent_loop a_segments a_children_of b_segments b_children_of todo =
     (case todo of
        [] \<Rightarrow> Some True
      | (a_cursor, b_cursor) # rest \<Rightarrow>
          let as = fetch_children a_cursor a_segments a_children_of;
              bs = fetch_children b_cursor b_segments b_children_of
          in if length as \<noteq> length bs then Some False
             else (case match_children as bs of
                     None \<Rightarrow> Some False
                   | Some new \<Rightarrow>
                       equivalent_loop a_segments a_children_of b_segments b_children_of
                         (rev new @ rest)))"

declare equivalent_loop.simps [code]

definition equivalent :: "('p::linorder) segment_tree \<Rightarrow> 'p segment_tree \<Rightarrow> bool option" where
  "equivalent a b =
     (if tree_size a \<noteq> tree_size b then Some False
      else equivalent_loop (segments a) (tree_to_children a) (segments b) (tree_to_children b)
             [(mnpos, mnpos)])"

section \<open>Tag pruning and tag roots\<close>

text \<open>
  \<open>std::upper_bound\<close> on an ascending vector: the position of the first element greater than
  the value, which is the number of leading elements that are not greater.
\<close>

definition upper_bound :: "nat list \<Rightarrow> nat \<Rightarrow> nat" where
  "upper_bound xs v = length (takeWhile (\<lambda>x. x \<le> v) xs)"

text \<open>
  The first loop of \<open>prune_tag\<close>. Its state is \<open>(num_pruned, tag_roots,
  pruned_id_upper_bounds, pruned_id_offsets)\<close>; the counters are natural numbers. The reads
  at a parent index are in range by the class invariant.
\<close>

definition prune_scan ::
  "'p msegment list \<Rightarrow> msize_t list \<Rightarrow> int \<Rightarrow> nat \<Rightarrow>
   nat \<times> msize_t list \<times> nat list \<times> nat list \<Rightarrow> nat \<times> msize_t list \<times> nat list \<times> nat list" where
  "prune_scan in_segments in_parents tg i st =
     (case st of (num_pruned, tag_roots, upper_bounds, offsets) \<Rightarrow>
        if tag (in_segments ! i) = tg then
          let num_pruned' = num_pruned + 1;
              par = in_parents ! i;
              tag_roots' =
                (if tag (in_segments ! i) = tg \<and> (par = mnpos \<or> tag (in_segments ! par) \<noteq> tg)
                 then tag_roots @ [i] else tag_roots)
          in if i + 1 < length in_segments \<and> tag (in_segments ! (i + 1)) \<noteq> tg
             then (num_pruned', tag_roots', upper_bounds @ [i + 1], offsets @ [num_pruned'])
             else (num_pruned', tag_roots', upper_bounds, offsets)
        else st)"

text \<open>
  The second loop: one step on the output tree, or the error that ends it. The subtraction
  on the parent index never goes below zero on a tree that satisfies the class invariant.
\<close>

definition prune_step ::
  "'p msegment list \<Rightarrow> msize_t list \<Rightarrow> int \<Rightarrow> nat list \<Rightarrow> nat list \<Rightarrow> nat \<Rightarrow>
   error + 'p segment_tree \<Rightarrow> error + 'p segment_tree" where
  "prune_step in_segments in_parents tg upper_bounds offsets i acc =
     (case acc of
        Inl e \<Rightarrow> Inl e
      | Inr out \<Rightarrow>
          let seg = in_segments ! i; par = in_parents ! i in
          if tag seg \<noteq> tg then
            if par \<noteq> mnpos \<and> tag (in_segments ! par) = tg
            then Inl (unpruned_child par (seg_id seg) tg)
            else
              let par' =
                    (if par \<noteq> mnpos
                     then (let ui = upper_bound upper_bounds par
                           in par - (if ui > 0 then offsets ! (ui - 1) else 0))
                     else par)
              in (case append4 out par' (prox seg) (dist seg) (tag seg) of
                    (Inl e, _) \<Rightarrow> Inl e
                  | (Inr _, out') \<Rightarrow> Inr out')
          else Inr out)"

definition prune_tag ::
  "'p segment_tree \<Rightarrow> int \<Rightarrow> error + 'p segment_tree \<times> msize_t list" where
  "prune_tag inp tg =
     (let in_segments = segments inp;
          in_parents = parents inp;
          (num_pruned, tag_roots, upper_bounds, offsets) =
            fold (prune_scan in_segments in_parents tg) [0..<length in_segments] (0, [], [], [])
      in case fold (prune_step in_segments in_parents tg upper_bounds offsets)
                [0..<length in_segments] (Inr empty_tree) of
           Inl e \<Rightarrow> Inl e
         | Inr out \<Rightarrow> Inr (out, tag_roots))"

definition tag_roots :: "'p segment_tree \<Rightarrow> int \<Rightarrow> msize_t list" where
  "tag_roots t tg =
     fold (\<lambda>i roots.
             let par = parents t ! i in
             if tag (segments t ! i) = tg \<and> (par = mnpos \<or> tag (segments t ! par) \<noteq> tg)
             then roots @ [i] else roots)
          [0..<length (segments t)] []"

section \<open>Notions used to state the properties\<close>

text \<open>Every parent that is not the sentinel is an earlier index.\<close>

definition parents_ordered :: "'p segment_tree \<Rightarrow> bool" where
  "parents_ordered t \<longleftrightarrow> (\<forall>i < tree_size t. parents t ! i \<noteq> mnpos \<longrightarrow> parents t ! i < i)"

text \<open>
  A tree built by a list of \<open>append\<close> calls \<open>(parent, proximal, distal, tag)\<close>; a call that
  throws leaves the tree as it is.
\<close>

definition build :: "(msize_t \<times> 'p \<times> 'p \<times> int) list \<Rightarrow> 'p segment_tree" where
  "build calls = fold (\<lambda>(p, prx, dst, tg) t. snd (append4 t p prx dst tg)) calls empty_tree"

text \<open>
  A root with two children of one geometry and tag, the first of which has a child; and the
  same tree with the two children appended in the other order.
\<close>

definition twin_tree :: "nat segment_tree" where
  "twin_tree = build [(mnpos, 0, 1, 0), (0, 1, 2, 0), (0, 1, 2, 0), (1, 2, 3, 0)]"

definition twin_tree_reordered :: "nat segment_tree" where
  "twin_tree_reordered = build [(mnpos, 0, 1, 0), (0, 1, 2, 0), (0, 1, 2, 0), (2, 2, 3, 0)]"

text \<open>A tree with two roots, a fork and three tags.\<close>

definition tagged_tree :: "nat segment_tree" where
  "tagged_tree = build [(mnpos, 0, 1, 0), (0, 1, 2, 1), (1, 2, 3, 1), (0, 1, 4, 0),
                        (3, 4, 5, 2), (mnpos, 7, 8, 0), (4, 5, 6, 2)]"

text \<open>
  For \<open>prune_tag\<close>: the number of segments with the tag below an index; the entry points of
  the tagged regions; the last index of a run of tagged segments that a surviving segment
  follows; and the invalid input, a surviving segment whose parent carries the tag.
\<close>

definition pruned_below :: "'p msegment list \<Rightarrow> int \<Rightarrow> nat \<Rightarrow> nat" where
  "pruned_below segs tg p = length (filter (\<lambda>j. tag (segs ! j) = tg) [0..<p])"

definition is_tag_root :: "'p msegment list \<Rightarrow> msize_t list \<Rightarrow> int \<Rightarrow> nat \<Rightarrow> bool" where
  "is_tag_root segs ps tg i \<longleftrightarrow>
     tag (segs ! i) = tg \<and> (ps ! i = mnpos \<or> tag (segs ! (ps ! i)) \<noteq> tg)"

definition run_end :: "'p msegment list \<Rightarrow> int \<Rightarrow> nat \<Rightarrow> bool" where
  "run_end segs tg i \<longleftrightarrow> tag (segs ! i) = tg \<and> Suc i < length segs \<and> tag (segs ! Suc i) \<noteq> tg"

definition unpruned_at :: "'p segment_tree \<Rightarrow> int \<Rightarrow> nat \<Rightarrow> bool" where
  "unpruned_at inp tg i \<longleftrightarrow>
     tag (segments inp ! i) \<noteq> tg \<and> parents inp ! i \<noteq> mnpos \<and>
     tag (segments inp ! (parents inp ! i)) = tg"

definition has_unpruned_child :: "'p segment_tree \<Rightarrow> int \<Rightarrow> bool" where
  "has_unpruned_child inp tg \<longleftrightarrow> (\<exists>i < tree_size inp. unpruned_at inp tg i)"

text \<open>The new parent index of a survivor: the removed indices below the old one are taken off.\<close>

definition new_parent :: "'p msegment list \<Rightarrow> int \<Rightarrow> msize_t \<Rightarrow> msize_t" where
  "new_parent segs tg p = (if p = mnpos then mnpos else p - pruned_below segs tg p)"

text \<open>No two segments with one parent (and no two roots) agree in geometry and tag.\<close>

definition distinct_siblings :: "'p segment_tree \<Rightarrow> bool" where
  "distinct_siblings t \<longleftrightarrow>
     (\<forall>i < tree_size t. \<forall>j < tree_size t.
        i \<noteq> j \<and> parents t ! i = parents t ! j \<longrightarrow>
        seg_key (segments t ! i) \<noteq> seg_key (segments t ! j))"

text \<open>
  Tree \<open>b\<close> holds the segments of tree \<open>a\<close> in another append order: segment \<open>i\<close> of \<open>a\<close> is
  segment \<open>f ! i\<close> of \<open>b\<close>, with its geometry and tag, and under the image of its parent.
\<close>

definition reordering :: "nat list \<Rightarrow> 'p segment_tree \<Rightarrow> 'p segment_tree \<Rightarrow> bool" where
  "reordering f a b \<longleftrightarrow>
     tree_size b = tree_size a \<and> length f = tree_size a \<and> distinct f \<and>
     (\<forall>i < tree_size a.
        f ! i < tree_size b \<and>
        seg_key (segments b ! (f ! i)) = seg_key (segments a ! i) \<and>
        parents b ! (f ! i) = (if parents a ! i = mnpos then mnpos else f ! (parents a ! i)))"

text \<open>
  The numbering of a copy. \<open>preorder ps keep x\<close> lists the segments that \<open>copy_subtree_if\<close>
  appends when it starts at \<open>x\<close>, in the order in which it appends them: \<open>x\<close> itself if the
  predicate keeps it, then the subtrees of its children, the child with the largest index
  first (the children are pushed in ascending order and popped from the back).
\<close>

function preorder :: "msize_t list \<Rightarrow> (msize_t \<Rightarrow> bool) \<Rightarrow> msize_t \<Rightarrow> msize_t list" where
  "preorder ps keep x =
     (if keep x
      then x # concat (map (preorder ps keep)
                           (rev (filter (\<lambda>c. ps ! c = x \<and> x < c) [0..<length ps])))
      else [])"
  by pat_completeness auto
termination
  by (relation "measure (\<lambda>(ps, keep, x). length ps - x)") auto

declare preorder.simps [simp del]

fun index_of :: "'a \<Rightarrow> 'a list \<Rightarrow> nat" where
  "index_of y [] = 0"
| "index_of y (x # xs) = (if x = y then 0 else Suc (index_of y xs))"

text \<open>
  The segments of \<open>pre\<close> in the order of their new indices: \<open>split_at\<close> copies the roots in
  ascending order and leaves out the subtree of \<open>at\<close>. The attachment point for the round
  trip is the new index of the parent of \<open>at\<close>, or the sentinel when \<open>at\<close> is a root.
\<close>

definition pre_order :: "'p segment_tree \<Rightarrow> msize_t \<Rightarrow> msize_t list" where
  "pre_order tree at =
     concat (map (preorder (parents tree) (\<lambda>y. y \<noteq> at))
                 (filter (\<lambda>i. parents tree ! i = mnpos) [0..<tree_size tree]))"

definition attachment :: "'p segment_tree \<Rightarrow> msize_t \<Rightarrow> msize_t" where
  "attachment tree at =
     (if parents tree ! at = mnpos then mnpos
      else index_of (parents tree ! at) (pre_order tree at))"

text \<open>
  The parent that the copy gives to segment \<open>y\<close>, when the copied segments \<open>V\<close> get the
  indices from \<open>base\<close> on: the new index of its parent, or \<open>ext\<close> when its parent is not
  copied. \<open>branch_of ps x y\<close> walks up from \<open>y\<close> to the child of \<open>x\<close> above it.
\<close>

definition dest_parent :: "msize_t list \<Rightarrow> msize_t list \<Rightarrow> nat \<Rightarrow> msize_t \<Rightarrow> msize_t \<Rightarrow> msize_t" where
  "dest_parent ps V base ext y =
     (if ps ! y \<in> set V then base + index_of (ps ! y) V else ext)"

function branch_of :: "msize_t list \<Rightarrow> msize_t \<Rightarrow> msize_t \<Rightarrow> msize_t" where
  "branch_of ps x y = (if ps ! y \<noteq> x \<and> ps ! y < y then branch_of ps x (ps ! y) else y)"
  by pat_completeness auto
termination
  by (relation "measure (\<lambda>(ps, x, y). y)") auto

declare branch_of.simps [simp del]

text \<open>
  A list of segments under one parent \<open>x\<close> (the children of a segment, or the roots when \<open>x\<close>
  is the sentinel); and tree \<open>r'\<close> being tree \<open>r\<close> with the segments \<open>V\<close> of \<open>s\<close> appended
  under parent \<open>p\<close>.
\<close>

definition siblings :: "msize_t list \<Rightarrow> msize_t \<Rightarrow> msize_t list \<Rightarrow> bool" where
  "siblings ps x L \<longleftrightarrow>
     distinct L \<and> (\<forall>c \<in> set L. c < length ps \<and> ps ! c = x \<and> (x < c \<or> length ps \<le> x))"

definition grafted ::
  "'p segment_tree \<Rightarrow> msize_t list \<Rightarrow> msize_t \<Rightarrow> 'p segment_tree \<Rightarrow> 'p segment_tree \<Rightarrow> bool" where
  "grafted s V p r r' \<longleftrightarrow>
     tree_inv r' \<and>
     map seg_key (segments r') = map seg_key (segments r) @ map (\<lambda>y. seg_key (segments s ! y)) V \<and>
     parents r' = parents r @ map (dest_parent (parents s) V (tree_size r) p) V"

text \<open>
  A root with two children of different geometry, the first of which has a child; and the
  same tree with the two children appended in the other order.
\<close>

definition fork_tree :: "nat segment_tree" where
  "fork_tree = build [(mnpos, 0, 1, 0), (0, 1, 2, 0), (0, 1, 3, 0), (1, 2, 4, 0)]"

definition fork_tree_reordered :: "nat segment_tree" where
  "fork_tree_reordered = build [(mnpos, 0, 1, 0), (0, 1, 3, 0), (0, 1, 2, 0), (2, 2, 4, 0)]"

text \<open>The two parts of \<open>twin_tree\<close> split at segment 1.\<close>

definition twin_pre :: "nat segment_tree" where
  "twin_pre = build [(mnpos, 0, 1, 0), (0, 1, 2, 0)]"

definition twin_post :: "nat segment_tree" where
  "twin_post = build [(mnpos, 1, 2, 0), (0, 2, 3, 0)]"

text \<open>
  What a run of \<open>equivalent\<close> that returns true has checked at a pair of cursors: the sorted
  children agree in number, geometry and tag, and the same holds at each pair of children
  that was put on the stack. \<open>partner a b c\<close> is the segment of \<open>b\<close> that such a run pairs
  with segment \<open>c\<close> of \<open>a\<close>.
\<close>

inductive matched ::
  "('p::linorder) segment_tree \<Rightarrow> 'p segment_tree \<Rightarrow> msize_t \<Rightarrow> msize_t \<Rightarrow> bool"
  for a b where
  matchedI:
    "length (fetch_children x (segments a) (tree_to_children a)) =
       length (fetch_children y (segments b) (tree_to_children b)) \<Longrightarrow>
     match_children (fetch_children x (segments a) (tree_to_children a))
                    (fetch_children y (segments b) (tree_to_children b)) = Some new \<Longrightarrow>
     (\<And>c d. (c, d) \<in> set new \<Longrightarrow> matched a b c d) \<Longrightarrow>
     matched a b x y"

function partner :: "('p::linorder) segment_tree \<Rightarrow> 'p segment_tree \<Rightarrow> msize_t \<Rightarrow> msize_t" where
  "partner a b c =
     (let x = parents a ! c;
          y = (if x < c then partner a b x else mnpos)
      in map seg_id (fetch_children y (segments b) (tree_to_children b)) !
           index_of c (map seg_id (fetch_children x (segments a) (tree_to_children a))))"
  by pat_completeness auto
termination
  by (relation "measure (\<lambda>(a, b, c). c)") auto

declare partner.simps [simp del]

text \<open>\<open>fork_tree\<close> with another tag on its last segment.\<close>

definition fork_tree_retagged :: "nat segment_tree" where
  "fork_tree_retagged = build [(mnpos, 0, 1, 0), (0, 1, 2, 0), (0, 1, 3, 0), (1, 2, 4, 7)]"

section \<open>Append and the class invariant\<close>

lemma append4_ok:
  "p < tree_size t \<or> p = mnpos \<Longrightarrow>
   \<exists>t'. append4 t p prx dst tg = (Inr (tree_size t), t') \<and>
     segments t' = segments t @ [\<lparr>seg_id = tree_size t, prox = prx, dist = dst, tag = tg\<rparr>] \<and>
     parents t' = parents t @ [p] \<and>
     length (seg_children t') = Suc (length (seg_children t))"
  by (auto simp: append4_def Let_def)

lemma append4_Inr:
  "append4 t p prx dst tg = (Inr i, t') \<Longrightarrow>
     (p < tree_size t \<or> p = mnpos) \<and> i = tree_size t \<and>
     segments t' = segments t @ [\<lparr>seg_id = tree_size t, prox = prx, dist = dst, tag = tg\<rparr>] \<and>
     parents t' = parents t @ [p] \<and>
     length (seg_children t') = Suc (length (seg_children t))"
  by (auto simp: append4_def Let_def split: if_splits)

lemma append4_cases:
  obtains e where "append4 t p prx dst tg = (Inl e, t)"
  | i t' where "append4 t p prx dst tg = (Inr i, t')"
  by (cases "p \<ge> tree_size t \<and> p \<noteq> mnpos") (simp_all add: append4_def Let_def)

lemma tree_inv_empty: "tree_inv empty_tree"
  by (simp add: tree_inv_def empty_tree_def)

lemma tree_inv_append4:
  assumes "tree_inv t" and "append4 t p prx dst tg = (Inr i, t')"
  shows "tree_inv t'"
proof -
  note a = append4_Inr [OF assms(2)]
  from assms(1) a show ?thesis
    unfolding tree_inv_def tree_size_def
    by (auto simp: nth_append less_Suc_eq)
qed

lemma reachable_tree_inv: "reachable t \<Longrightarrow> tree_inv t"
  by (induction rule: reachable.induct) (auto intro: tree_inv_empty tree_inv_append4)

lemma reachable_fold_append:
  "reachable t \<Longrightarrow> reachable (fold (\<lambda>(p, prx, dst, tg) t. snd (append4 t p prx dst tg)) calls t)"
proof (induction calls arbitrary: t)
  case Nil
  then show ?case by simp
next
  case (Cons c calls)
  obtain p prx dst tg where c: "c = (p, prx, dst, tg)" by (cases c) auto
  have "reachable (snd (append4 t p prx dst tg))"
    by (rule append4_cases [of t p prx dst tg]) (auto intro: Cons.prems reachable_append)
  then show ?case using Cons.IH c by simp
qed

lemma reachable_build: "reachable (build calls)"
  unfolding build_def by (rule reachable_fold_append [OF reachable_empty])

lemma twin_tree_eq:
  "twin_tree = \<lparr>segments = [\<lparr>seg_id = 0, prox = 0, dist = 1, tag = 0\<rparr>,
                             \<lparr>seg_id = 1, prox = 1, dist = 2, tag = 0\<rparr>,
                             \<lparr>seg_id = 2, prox = 1, dist = 2, tag = 0\<rparr>,
                             \<lparr>seg_id = 3, prox = 2, dist = 3, tag = 0\<rparr>],
                 parents = [mnpos, 0, 0, 1],
                 seg_children = [child_prop 2, child_prop 1, child_prop 0, child_prop 0]\<rparr>"
  by (simp add: twin_tree_def build_def append4_def empty_tree_def tree_size_def increment_def
        mnpos_def)

lemma twin_tree_reordered_eq:
  "twin_tree_reordered = \<lparr>segments = [\<lparr>seg_id = 0, prox = 0, dist = 1, tag = 0\<rparr>,
                                       \<lparr>seg_id = 1, prox = 1, dist = 2, tag = 0\<rparr>,
                                       \<lparr>seg_id = 2, prox = 1, dist = 2, tag = 0\<rparr>,
                                       \<lparr>seg_id = 3, prox = 2, dist = 3, tag = 0\<rparr>],
                 parents = [mnpos, 0, 0, 2],
                 seg_children = [child_prop 2, child_prop 0, child_prop 1, child_prop 0]\<rparr>"
  by (simp add: twin_tree_reordered_def build_def append4_def empty_tree_def tree_size_def
        increment_def mnpos_def)

lemma tagged_tree_eq:
  "tagged_tree = \<lparr>segments = [\<lparr>seg_id = 0, prox = 0, dist = 1, tag = 0\<rparr>,
                               \<lparr>seg_id = 1, prox = 1, dist = 2, tag = 1\<rparr>,
                               \<lparr>seg_id = 2, prox = 2, dist = 3, tag = 1\<rparr>,
                               \<lparr>seg_id = 3, prox = 1, dist = 4, tag = 0\<rparr>,
                               \<lparr>seg_id = 4, prox = 4, dist = 5, tag = 2\<rparr>,
                               \<lparr>seg_id = 5, prox = 7, dist = 8, tag = 0\<rparr>,
                               \<lparr>seg_id = 6, prox = 5, dist = 6, tag = 2\<rparr>],
                   parents = [mnpos, 0, 1, 0, 3, mnpos, 4],
                   seg_children = [child_prop 2, child_prop 1, child_prop 0, child_prop 1,
                                   child_prop 1, child_prop 0, child_prop 0]\<rparr>"
  by (simp add: tagged_tree_def build_def append4_def empty_tree_def tree_size_def increment_def
        mnpos_def)

text \<open>
  C9. \<open>apply\<close> returns a tree of the same size whose segments have the transform applied to
  both end points and keep id and tag; the parent vector and the child counters are those
  of the input. The input is a value and is not changed.
\<close>

theorem apply_iso_frame:
  "tree_size (apply_iso tree isom) = tree_size tree \<and>
   map prox (segments (apply_iso tree isom)) = map (\<lambda>seg. isom (prox seg)) (segments tree) \<and>
   map dist (segments (apply_iso tree isom)) = map (\<lambda>seg. isom (dist seg)) (segments tree) \<and>
   map seg_id (segments (apply_iso tree isom)) = map seg_id (segments tree) \<and>
   map tag (segments (apply_iso tree isom)) = map tag (segments tree) \<and>
   parents (apply_iso tree isom) = parents tree \<and>
   seg_children (apply_iso tree isom) = seg_children tree"
  by (simp add: apply_iso_def tree_size_def)

text \<open>
  C6. The four-argument \<open>append\<close> throws invalid-parent, leaving the tree as it was, exactly
  when the parent is neither the sentinel nor an index of the tree; the three-argument form
  exactly when the parent is the sentinel or not an index of the tree. Otherwise one segment
  is appended, the call returns the size before the call, and the three-argument form takes
  the parent's distal point as proximal point.
\<close>

theorem append_invalid_parent:
  "(if p \<ge> tree_size t \<and> p \<noteq> mnpos
    then append4 t p prx dst tg = (Inl (invalid_segment_parent p (tree_size t)), t)
    else \<exists>t'. append4 t p prx dst tg = (Inr (tree_size t), t') \<and>
           tree_size t' = Suc (tree_size t) \<and>
           segments t' = segments t @ [\<lparr>seg_id = tree_size t, prox = prx, dist = dst, tag = tg\<rparr>] \<and>
           parents t' = parents t @ [p]) \<and>
   (if p = mnpos \<or> p \<ge> tree_size t
    then append3 t p dst tg = (Inl (invalid_segment_parent p (tree_size t)), t)
    else \<exists>t'. append3 t p dst tg = (Inr (tree_size t), t') \<and>
           tree_size t' = Suc (tree_size t) \<and>
           segments t' = segments t @
             [\<lparr>seg_id = tree_size t, prox = dist (segments t ! p), dist = dst, tag = tg\<rparr>] \<and>
           parents t' = parents t @ [p])"
proof -
  have four: "\<not> (p \<ge> tree_size t \<and> p \<noteq> mnpos) \<Longrightarrow>
     \<exists>t'. append4 t p q dst tg = (Inr (tree_size t), t') \<and>
           tree_size t' = Suc (tree_size t) \<and>
           segments t' = segments t @ [\<lparr>seg_id = tree_size t, prox = q, dist = dst, tag = tg\<rparr>] \<and>
           parents t' = parents t @ [p]" for q
    using append4_ok [of p t q dst tg] by (auto simp: tree_size_def)
  show ?thesis
    using four [of prx] four [of "dist (segments t ! p)"]
    by (auto simp: append4_def append3_def)
qed

theorem append_invalid_parent_witness:
  "append4 twin_tree 4 (5::nat) 6 0 = (Inl (invalid_segment_parent 4 4), twin_tree) \<and>
   append3 twin_tree mnpos 6 0 = (Inl (invalid_segment_parent mnpos 4), twin_tree) \<and>
   (\<exists>t'. append3 twin_tree 3 6 0 = (Inr 4, t') \<and>
          segments t' = segments twin_tree @ [\<lparr>seg_id = 4, prox = 3, dist = 6, tag = 0\<rparr>] \<and>
          parents t' = parents twin_tree @ [3])"
proof -
  have s: "tree_size twin_tree = 4" "dist (segments twin_tree ! 3) = 3"
    by (simp_all add: twin_tree_eq tree_size_def)
  show ?thesis
    using append_invalid_parent [where t = twin_tree and p = 4 and prx = 5 and dst = 6 and tg = 0]
      append_invalid_parent [where t = twin_tree and p = mnpos and prx = 5 and dst = 6 and tg = 0]
      append_invalid_parent [where t = twin_tree and p = 3 and prx = 5 and dst = 6 and tg = 0]
    by (auto simp: s mnpos_def)
qed

text \<open>
  C7. In every tree built from the empty tree by successful \<open>append\<close> calls, a parent that is
  not the sentinel is smaller than the index of its segment; and a successful \<open>append\<close> of
  either form keeps this property.
\<close>

theorem parent_before_child:
  "(reachable t \<longrightarrow> parents_ordered t) \<and>
   (length (parents t) = tree_size t \<and> parents_ordered t \<and> append4 t p prx dst tg = (Inr i, t')
      \<longrightarrow> length (parents t') = tree_size t' \<and> parents_ordered t') \<and>
   (length (parents t) = tree_size t \<and> parents_ordered t \<and> append3 t p dst tg = (Inr i, t')
      \<longrightarrow> length (parents t') = tree_size t' \<and> parents_ordered t')"
proof -
  have step: "length (parents t') = tree_size t' \<and> parents_ordered t'"
    if "length (parents t) = tree_size t" "parents_ordered t" "append4 t p q dst tg = (Inr i, t')" for q
    using that append4_Inr [OF that(3)]
    unfolding parents_ordered_def tree_size_def
    by (auto simp: nth_append less_Suc_eq)
  have "parents_ordered t" if "reachable t"
    using reachable_tree_inv [OF that] unfolding tree_inv_def parents_ordered_def tree_size_def by auto
  moreover have "append4 t p (dist (segments t ! p)) dst tg = (Inr i, t')"
    if "append3 t p dst tg = (Inr i, t')"
    using that by (auto simp: append3_def split: if_splits)
  ultimately show ?thesis using step by blast
qed

theorem parent_before_child_witness:
  "reachable twin_tree \<and> parents_ordered twin_tree \<and>
   append4 twin_tree 1 2 5 0 = (Inr 4, build [(mnpos, 0, 1, 0), (0, 1, 2, 0), (0, 1, 2, 0), (1, 2, 3, 0), (1, 2, 5, 0)]) \<and>
   append3 twin_tree 1 5 0 = (Inr 4, build [(mnpos, 0, 1, 0), (0, 1, 2, 0), (0, 1, 2, 0), (1, 2, 3, 0), (1, 2, 5, 0)]) \<and>
   parents_ordered (build [(mnpos, 0, 1, 0), (0, 1, 2, 0), (0, 1, 2, 0), (1, 2, 3, 0), (1, 2, 5::nat, 0)])"
proof -
  let ?t' = "build [(mnpos, 0, 1, 0), (0, 1, 2, 0), (0, 1, 2, 0), (1, 2, 3, 0), (1, 2, 5::nat, 0)]"
  have r: "reachable twin_tree" unfolding twin_tree_def by (rule reachable_build)
  have l: "length (parents twin_tree) = tree_size twin_tree"
    by (simp add: twin_tree_eq tree_size_def)
  have a4: "append4 twin_tree 1 2 5 0 = (Inr 4, ?t')"
    by (simp add: twin_tree_def build_def append4_def empty_tree_def tree_size_def increment_def
        mnpos_def)
  have a3: "append3 twin_tree 1 5 0 = (Inr 4, ?t')"
    by (simp add: twin_tree_def build_def append3_def append4_def empty_tree_def tree_size_def
        increment_def mnpos_def)
  show ?thesis
    using parent_before_child [where t = twin_tree and p = 1 and prx = 2 and dst = 5 and tg = 0
        and i = 4 and t' = ?t'] r l a4 a3 by simp
qed

section \<open>The children index\<close>

lemma fold_children_bucket:
  "fold (\<lambda>ix m. m(ps ! ix := m (ps ! ix) @ [ix])) xs m0 k = m0 k @ filter (\<lambda>ix. ps ! ix = k) xs"
  by (induction xs arbitrary: m0) auto

lemma tree_to_children_eq:
  "tree_to_children t k = filter (\<lambda>ix. parents t ! ix = k) [0..<tree_size t]"
proof -
  have "sorted (filter (\<lambda>ix. parents t ! ix = k) [0..<tree_size t])"
    by (simp add: sorted_wrt_filter)
  then show ?thesis
    by (simp add: tree_to_children_def fold_children_bucket sorted_sort_id)
qed

lemma child_count_consistent:
  "reachable t \<Longrightarrow> tree_size t \<le> mnpos \<Longrightarrow> i < tree_size t \<Longrightarrow>
     child_count (seg_children t ! i) = length (filter (\<lambda>j. parents t ! j = i) [0..<tree_size t])"
proof (induction arbitrary: i rule: reachable.induct)
  case reachable_empty
  then show ?case by (simp add: empty_tree_def tree_size_def)
next
  case (reachable_append t p prx dst tg k t')
  note a = append4_Inr [OF reachable_append.hyps(2)]
  have inv: "tree_inv t" by (rule reachable_tree_inv [OF reachable_append.hyps(1)])
  let ?n = "tree_size t"
  have n: "tree_size t' = Suc ?n" using a by (simp add: tree_size_def)
  have small: "?n < mnpos" using reachable_append.prems n by simp
  have lens: "length (parents t) = ?n" "length (seg_children t) = ?n"
    using inv by (simp_all add: tree_inv_def tree_size_def)
  have IH: "j < ?n \<Longrightarrow> child_count (seg_children t ! j) =
              length (filter (\<lambda>l. parents t ! l = j) [0..<?n])" for j
    using reachable_append.IH small by simp
  have sc: "seg_children t' =
      (if p \<noteq> mnpos
       then (seg_children t @ [child_prop 0])[p := increment ((seg_children t @ [child_prop 0]) ! p)]
       else seg_children t @ [child_prop 0])"
    using reachable_append.hyps(2) by (auto simp: append4_def Let_def split: if_splits)
  have par_old: "filter (\<lambda>l. parents t' ! l = j) [0..<?n] = filter (\<lambda>l. parents t ! l = j) [0..<?n]"
    for j
    using a lens by (auto intro!: filter_cong simp: nth_append)
  have par_new: "parents t' ! ?n = p" using a lens by (simp add: nth_append)
  have no_child_last: "filter (\<lambda>l. parents t ! l = ?n) [0..<?n] = []"
  proof -
    have "parents t ! l \<noteq> ?n" if "l < ?n" for l
      using inv that small unfolding tree_inv_def tree_size_def
      by (metis less_imp_not_less nat_neq_iff)
    then show ?thesis by (auto simp: filter_empty_conv)
  qed
  show ?case
  proof (cases "i = ?n")
    case True
    have "p \<noteq> ?n" using a small by auto
    then have "child_count (seg_children t' ! i) = 0"
      using True sc lens by (auto simp: nth_append)
    moreover have "filter (\<lambda>j. parents t' ! j = i) [0..<tree_size t'] = []"
      using True n par_old [of ?n] no_child_last par_new \<open>p \<noteq> ?n\<close> by simp
    ultimately show ?thesis by simp
  next
    case False
    then have i: "i < ?n" using reachable_append.prems n by simp
    have "child_count (seg_children t' ! i) =
            child_count (seg_children t ! i) + (if p = i then 1 else 0)"
      using i sc lens small by (auto simp: nth_append increment_def nth_list_update)
    moreover have "length (filter (\<lambda>j. parents t' ! j = i) [0..<tree_size t']) =
        length (filter (\<lambda>l. parents t ! l = i) [0..<?n]) + (if p = i then 1 else 0)"
      using n par_old [of i] par_new by simp
    ultimately show ?thesis using IH [OF i] by simp
  qed
qed

text \<open>
  C8. On a tree built by \<open>append\<close> (whose size fits the index type), the three queries throw
  no-such-segment exactly when the index is not below the size. Otherwise \<open>is_root\<close> tells
  whether the parent is the sentinel, \<open>is_fork\<close> whether the children index lists at least two
  children, and \<open>is_terminal\<close> whether it lists none, where the children index of \<open>i\<close> lists
  the indices whose parent is \<open>i\<close>.
\<close>

theorem root_fork_terminal:
  assumes "reachable t" and "tree_size t \<le> mnpos"
  shows "(if i \<ge> tree_size t
          then is_root t i = Inl (no_such_segment i) \<and> is_fork t i = Inl (no_such_segment i) \<and>
               is_terminal t i = Inl (no_such_segment i)
          else is_root t i = Inr (parents t ! i = mnpos) \<and>
               is_fork t i = Inr (length (tree_to_children t i) \<ge> 2) \<and>
               is_terminal t i = Inr (tree_to_children t i = [])) \<and>
         tree_to_children t i = filter (\<lambda>j. parents t ! j = i) [0..<tree_size t]"
  using child_count_consistent [OF assms, of i]
  by (simp add: is_root_def is_fork_def is_terminal_def prop_is_fork_def prop_is_terminal_def
        tree_to_children_eq)

theorem root_fork_terminal_witness:
  "reachable twin_tree \<and> tree_size twin_tree \<le> mnpos \<and>
   is_root twin_tree 0 = Inr True \<and> is_fork twin_tree 0 = Inr True \<and>
   is_terminal twin_tree 0 = Inr False \<and> tree_to_children twin_tree 0 = [1, 2]"
proof -
  have r: "reachable twin_tree" unfolding twin_tree_def by (rule reachable_build)
  have s: "tree_size twin_tree \<le> mnpos" by (simp add: twin_tree_eq tree_size_def mnpos_def)
  have u: "[0..<4] = [0, 1, 2, 3]" by (simp add: upt_rec)
  show ?thesis
    using root_fork_terminal [OF r s, where i = 0] r s
    by (simp add: twin_tree_eq tree_size_def u)
qed

text \<open>
  C10. \<open>join_at\<close> with an empty right-hand tree passes the check of the parent and then reads
  segment 0 of the empty vector: the read is out of range.
\<close>

theorem join_at_empty_rhs:
  assumes "tree_size rhs = 0" and "at < tree_size lhs \<or> at = mnpos"
  shows "join_at lhs at rhs = Some (Inl (out_of_range 0))"
  using assms
  by (auto simp: join_at_def copy_subtree_if_def copy_loop.simps yes_def tree_size_def)

theorem join_at_empty_rhs_witness:
  "tree_size (empty_tree :: nat segment_tree) = 0 \<and> (1 < tree_size twin_tree \<or> 1 = mnpos) \<and>
   join_at twin_tree 1 empty_tree = Some (Inl (out_of_range 0))"
proof -
  have e: "tree_size (empty_tree :: nat segment_tree) = 0"
    by (simp add: empty_tree_def tree_size_def)
  have v: "1 < tree_size twin_tree \<or> 1 = mnpos"
    by (simp add: twin_tree_eq tree_size_def)
  show ?thesis using join_at_empty_rhs [OF e v] e v by simp
qed

section \<open>Tag pruning\<close>

lemma prune_scan_closed:
  "m \<le> length segs \<Longrightarrow>
   fold (prune_scan segs ps tg) [0..<m] (0, [], [], []) =
     (pruned_below segs tg m, filter (is_tag_root segs ps tg) [0..<m],
      map Suc (filter (run_end segs tg) [0..<m]),
      map (\<lambda>i. pruned_below segs tg (Suc i)) (filter (run_end segs tg) [0..<m]))"
proof (induction m)
  case 0
  then show ?case by (simp add: pruned_below_def)
next
  case (Suc m)
  then show ?case
    by (simp add: prune_scan_def pruned_below_def is_tag_root_def run_end_def Let_def)
qed

lemma tag_roots_eq:
  "tag_roots t tg = filter (is_tag_root (segments t) (parents t) tg) [0..<length (segments t)]"
proof -
  have "fold (\<lambda>i roots.
             let par = parents t ! i in
             if tag (segments t ! i) = tg \<and> (par = mnpos \<or> tag (segments t ! par) \<noteq> tg)
             then roots @ [i] else roots) xs acc = acc @ filter (is_tag_root (segments t) (parents t) tg) xs" for xs acc
    by (induction xs arbitrary: acc) (simp_all add: is_tag_root_def Let_def)
  then show ?thesis by (simp add: tag_roots_def)
qed

lemma prune_tag_Inr_roots:
  "prune_tag inp tg = Inr (out, roots) \<Longrightarrow> roots = tag_roots inp tg"
  by (auto simp: prune_tag_def Let_def prune_scan_closed tag_roots_eq split: sum.splits)

lemma upper_bound_run_ends:
  assumes "p \<le> n"
  shows "takeWhile (\<lambda>x. x \<le> p) (map Suc (filter B [0..<n])) = map Suc (filter B [0..<p])"
proof -
  have split: "[0..<n] = [0..<p] @ [p..<n]"
    using assms by (metis le_add_diff_inverse upt_add_eq_append zero_le)
  have "takeWhile (\<lambda>x. x \<le> p) (map Suc (filter B [p..<n])) = []"
  proof (cases "filter B [p..<n]")
    case Nil
    then show ?thesis by simp
  next
    case (Cons x xs)
    then have "x \<in> set (filter B [p..<n])" by simp
    then have "p \<le> x" by simp
    then show ?thesis using Cons by simp
  qed
  moreover have "\<And>x. x \<in> set (map Suc (filter B [0..<p])) \<Longrightarrow> x \<le> p"
    by auto
  ultimately show ?thesis
    unfolding split filter_append map_append by (simp only: takeWhile_append2 append_Nil2)
qed


lemma offset_lookup:
  assumes "p < length segs"
  shows "(let ui = upper_bound (map Suc (filter (run_end segs tg) [0..<length segs])) p
          in if ui > 0
             then map (\<lambda>i. pruned_below segs tg (Suc i)) (filter (run_end segs tg) [0..<length segs]) ! (ui - 1)
             else 0) =
         (let l = filter (run_end segs tg) [0..<p]
          in if l = [] then 0 else pruned_below segs tg (Suc (last l)))"
proof -
  let ?n = "length segs"
  let ?B = "run_end segs tg"
  have split: "[0..<?n] = [0..<p] @ [p..<?n]"
    using assms by (metis le_add_diff_inverse less_imp_le upt_add_eq_append zero_le)
  have ub: "upper_bound (map Suc (filter ?B [0..<?n])) p = length (filter ?B [0..<p])"
    unfolding upper_bound_def using upper_bound_run_ends [of p ?n ?B] assms by simp
  have nth: "filter ?B [0..<?n] ! (length (filter ?B [0..<p]) - 1) = last (filter ?B [0..<p])"
    if "filter ?B [0..<p] \<noteq> []"
    using that unfolding split by (simp add: nth_append last_conv_nth)
  have len: "length (filter ?B [0..<p]) - 1 < length (filter ?B [0..<?n])"
    if "filter ?B [0..<p] \<noteq> []"
  proof -
    have "0 < length (filter ?B [0..<p])" using that by simp
    then show ?thesis unfolding split filter_append length_append by linarith
  qed
  show ?thesis
    using nth len by (auto simp: ub Let_def)
qed

lemma closed_runs_below:
  "p < length segs \<Longrightarrow> tag (segs ! p) \<noteq> tg \<Longrightarrow>
   (let l = filter (run_end segs tg) [0..<p]
    in if l = [] then 0 else pruned_below segs tg (Suc (last l))) = pruned_below segs tg p"
proof (induction p)
  case 0
  then show ?case by (simp add: pruned_below_def)
next
  case (Suc p)
  show ?case
  proof (cases "tag (segs ! p) = tg")
    case True
    then have "run_end segs tg p" using Suc.prems by (simp add: run_end_def)
    then show ?thesis by (simp add: Let_def)
  next
    case False
    then have "\<not> run_end segs tg p" by (simp add: run_end_def)
    moreover have "pruned_below segs tg (Suc p) = pruned_below segs tg p"
      using False by (simp add: pruned_below_def)
    ultimately show ?thesis using Suc.IH Suc.prems False by (simp add: Let_def)
  qed
qed

lemma survivors_length:
  "length (filter (\<lambda>i. tag (segs ! i) \<noteq> tg) [0..<p]) = p - pruned_below segs tg p"
  using sum_length_filter_compl [of "\<lambda>j. tag (segs ! j) = tg" "[0..<p]"]
  by (simp add: pruned_below_def)

lemma survivors_mono:
  assumes "p < m" and "tag (segs ! p) \<noteq> tg"
  shows "p - pruned_below segs tg p < length (filter (\<lambda>i. tag (segs ! i) \<noteq> tg) [0..<m])"
proof -
  have "[0..<m] = [0..<p] @ p # [Suc p..<m]"
    using assms(1) by (metis less_imp_le_nat upt_add_eq_append upt_conv_Cons le_add_diff_inverse zero_le)
  then show ?thesis
    using assms(2) survivors_length [of segs tg p] by simp
qed

lemma prune_lookup:
  assumes "p < length segs" and "tag (segs ! p) \<noteq> tg"
  shows "(let ui = upper_bound (map Suc (filter (run_end segs tg) [0..<length segs])) p
          in p - (if ui > 0
             then map (\<lambda>i. pruned_below segs tg (Suc i)) (filter (run_end segs tg) [0..<length segs]) ! (ui - 1)
             else 0)) = p - pruned_below segs tg p"
  using offset_lookup [OF assms(1), of tg] closed_runs_below [OF assms]
  by (simp add: Let_def)

lemma prune_step_Inl: "fold (prune_step segs ps tg ubs offs) xs (Inl e) = Inl e"
  by (induction xs) (simp_all add: prune_step_def)

lemma prune_step_survivor:
  assumes inv: "tree_inv inp"
    and i: "i < tree_size inp"
    and keep: "tag (segments inp ! i) \<noteq> tg"
    and ok: "\<not> unpruned_at inp tg i"
    and sz: "tree_size out = length (filter (\<lambda>j. tag (segments inp ! j) \<noteq> tg) [0..<i])"
  shows "\<exists>out'. prune_step (segments inp) (parents inp) tg
           (map Suc (filter (run_end (segments inp) tg) [0..<length (segments inp)]))
           (map (\<lambda>i. pruned_below (segments inp) tg (Suc i))
                (filter (run_end (segments inp) tg) [0..<length (segments inp)])) i (Inr out) = Inr out' \<and>
         segments out' = segments out @
           [\<lparr>seg_id = tree_size out, prox = prox (segments inp ! i), dist = dist (segments inp ! i),
             tag = tag (segments inp ! i)\<rparr>] \<and>
         parents out' = parents out @ [new_parent (segments inp) tg (parents inp ! i)] \<and>
         length (seg_children out') = Suc (length (seg_children out))"
proof -
  let ?segs = "segments inp" and ?ps = "parents inp"
  let ?par = "?ps ! i"
  have par: "?par = mnpos \<or> ?par < i"
    using inv i by (simp add: tree_inv_def tree_size_def)
  show ?thesis
  proof (cases "?par = mnpos")
    case True
    then show ?thesis
      using keep append4_ok [of mnpos out "prox (?segs ! i)" "dist (?segs ! i)" "tag (?segs ! i)"]
      by (auto simp: prune_step_def Let_def new_parent_def)
  next
    case False
    then have lt: "?par < i" using par by simp
    then have len: "?par < length ?segs" using i by (simp add: tree_size_def)
    have untagged: "tag (?segs ! ?par) \<noteq> tg"
      using ok keep False by (simp add: unpruned_at_def)
    have valid: "?par - pruned_below ?segs tg ?par < tree_size out"
      unfolding sz by (rule survivors_mono [OF lt untagged])
    have look: "(let ui = upper_bound (map Suc (filter (run_end ?segs tg) [0..<length ?segs])) ?par
          in ?par - (if ui > 0
             then map (\<lambda>i. pruned_below ?segs tg (Suc i)) (filter (run_end ?segs tg) [0..<length ?segs]) ! (ui - 1)
             else 0)) = ?par - pruned_below ?segs tg ?par"
      by (rule prune_lookup [OF len untagged])
    obtain out' where out': "append4 out (?par - pruned_below ?segs tg ?par)
          (prox (?segs ! i)) (dist (?segs ! i)) (tag (?segs ! i)) = (Inr (tree_size out), out')"
       "segments out' = segments out @
           [\<lparr>seg_id = tree_size out, prox = prox (?segs ! i), dist = dist (?segs ! i),
             tag = tag (?segs ! i)\<rparr>]"
       "parents out' = parents out @ [?par - pruned_below ?segs tg ?par]"
       "length (seg_children out') = Suc (length (seg_children out))"
      using append4_ok [of "?par - pruned_below ?segs tg ?par" out] valid by blast
    have "prune_step ?segs ?ps tg
           (map Suc (filter (run_end ?segs tg) [0..<length ?segs]))
           (map (\<lambda>i. pruned_below ?segs tg (Suc i))
                (filter (run_end ?segs tg) [0..<length ?segs])) i (Inr out) = Inr out'"
      unfolding prune_step_def using keep untagged False look out'(1)
      by (simp add: Let_def)
    then show ?thesis
      using out'(2,3,4) False by (simp add: new_parent_def)
  qed
qed

lemma prune_loop_ok:
  assumes inv: "tree_inv inp"
  shows "m \<le> tree_size inp \<Longrightarrow> \<forall>i < m. \<not> unpruned_at inp tg i \<Longrightarrow>
    \<exists>out. fold (prune_step (segments inp) (parents inp) tg
           (map Suc (filter (run_end (segments inp) tg) [0..<length (segments inp)]))
           (map (\<lambda>i. pruned_below (segments inp) tg (Suc i))
                (filter (run_end (segments inp) tg) [0..<length (segments inp)]))) [0..<m] (Inr empty_tree) = Inr out \<and>
      map seg_id (segments out) = [0..<length (filter (\<lambda>j. tag (segments inp ! j) \<noteq> tg) [0..<m])] \<and>
      map seg_key (segments out) = map (\<lambda>i. seg_key (segments inp ! i)) (filter (\<lambda>j. tag (segments inp ! j) \<noteq> tg) [0..<m]) \<and>
      parents out = map (\<lambda>i. new_parent (segments inp) tg (parents inp ! i)) (filter (\<lambda>j. tag (segments inp ! j) \<noteq> tg) [0..<m]) \<and>
      length (seg_children out) = length (filter (\<lambda>j. tag (segments inp ! j) \<noteq> tg) [0..<m])"
proof (induction m)
  case 0
  then show ?case by (simp add: empty_tree_def)
next
  case (Suc m)
  let ?step = "prune_step (segments inp) (parents inp) tg
           (map Suc (filter (run_end (segments inp) tg) [0..<length (segments inp)]))
           (map (\<lambda>i. pruned_below (segments inp) tg (Suc i))
                (filter (run_end (segments inp) tg) [0..<length (segments inp)]))"
  let ?surv = "\<lambda>m. filter (\<lambda>j. tag (segments inp ! j) \<noteq> tg) [0..<m]"
  from Suc obtain out where out: "fold ?step [0..<m] (Inr empty_tree) = Inr out"
      "map seg_id (segments out) = [0..<length (?surv m)]"
      "map seg_key (segments out) = map (\<lambda>i. seg_key (segments inp ! i)) (?surv m)"
      "parents out = map (\<lambda>i. new_parent (segments inp) tg (parents inp ! i)) (?surv m)"
      "length (seg_children out) = length (?surv m)"
    by auto
  have fold_Suc: "fold ?step [0..<Suc m] (Inr empty_tree) = ?step m (Inr out)"
    using out(1) by simp
  show ?case
  proof (cases "tag (segments inp ! m) = tg")
    case True
    then have "?step m (Inr out) = Inr out" by (simp add: prune_step_def Let_def)
    then show ?thesis using out True fold_Suc by simp
  next
    case False
    have sz: "tree_size out = length (?surv m)"
      using arg_cong [OF out(2), of length] by (simp add: tree_size_def)
    obtain out' where out': "?step m (Inr out) = Inr out'"
      "segments out' = segments out @
           [\<lparr>seg_id = tree_size out, prox = prox (segments inp ! m), dist = dist (segments inp ! m),
             tag = tag (segments inp ! m)\<rparr>]"
      "parents out' = parents out @ [new_parent (segments inp) tg (parents inp ! m)]"
      "length (seg_children out') = Suc (length (seg_children out))"
      using prune_step_survivor [OF inv _ False _ sz] Suc.prems by auto
    have key: "seg_key \<lparr>seg_id = tree_size out, prox = prox (segments inp ! m),
             dist = dist (segments inp ! m), tag = tag (segments inp ! m)\<rparr> = seg_key (segments inp ! m)"
      by (simp add: seg_key_def)
    show ?thesis
      using out out' False fold_Suc sz key by simp
  qed
qed

lemma prune_loop_error:
  assumes inv: "tree_inv inp"
    and i: "i < tree_size inp"
    and bad: "unpruned_at inp tg i"
    and first: "\<forall>j < i. \<not> unpruned_at inp tg j"
  shows "fold (prune_step (segments inp) (parents inp) tg
           (map Suc (filter (run_end (segments inp) tg) [0..<length (segments inp)]))
           (map (\<lambda>i. pruned_below (segments inp) tg (Suc i))
                (filter (run_end (segments inp) tg) [0..<length (segments inp)]))) [0..<tree_size inp] (Inr empty_tree)
         = Inl (unpruned_child (parents inp ! i) i tg)"
proof -
  let ?step = "prune_step (segments inp) (parents inp) tg
           (map Suc (filter (run_end (segments inp) tg) [0..<length (segments inp)]))
           (map (\<lambda>i. pruned_below (segments inp) tg (Suc i))
                (filter (run_end (segments inp) tg) [0..<length (segments inp)]))"
  obtain out where out: "fold ?step [0..<i] (Inr empty_tree) = Inr out"
    using prune_loop_ok [OF inv, of i tg] i first by auto
  have id: "seg_id (segments inp ! i) = i"
    using inv i by (simp add: tree_inv_def tree_size_def)
  have "?step i (Inr out) = Inl (unpruned_child (parents inp ! i) i tg)"
    using bad id by (simp add: prune_step_def unpruned_at_def Let_def)
  moreover have "[0..<tree_size inp] = [0..<i] @ i # [Suc i..<tree_size inp]"
    using i by (metis less_imp_le_nat upt_add_eq_append upt_conv_Cons le_add_diff_inverse zero_le)
  ultimately show ?thesis
    using out by (simp add: prune_step_Inl)
qed

lemma has_unpruned_child_list:
  "has_unpruned_child inp tg \<longleftrightarrow> list_ex (unpruned_at inp tg) [0..<tree_size inp]"
  by (auto simp: has_unpruned_child_def list_ex_iff)

lemma upt_0_7: "[0..<7] = [0, 1, 2, 3, 4, 5, 6]"
  by (simp add: upt_rec)

lemma tree_inv_tagged_tree: "tree_inv tagged_tree"
  unfolding tagged_tree_def by (rule reachable_tree_inv [OF reachable_build])

lemma prune_tag_no_unpruned:
  assumes "tree_inv inp" and "\<not> has_unpruned_child inp tg"
  shows "\<exists>out. prune_tag inp tg = Inr (out, tag_roots inp tg) \<and>
           map seg_key (segments out) = map seg_key (filter (\<lambda>s. tag s \<noteq> tg) (segments inp)) \<and>
           map seg_id (segments out) = [0..<tree_size out] \<and>
           parents out = map (\<lambda>i. new_parent (segments inp) tg (parents inp ! i))
                             (filter (\<lambda>i. tag (segments inp ! i) \<noteq> tg) [0..<tree_size inp])"
proof -
  let ?n = "tree_size inp"
  let ?surv = "filter (\<lambda>j. tag (segments inp ! j) \<noteq> tg) [0..<?n]"
  have "\<forall>i < ?n. \<not> unpruned_at inp tg i"
    using assms(2) by (simp add: has_unpruned_child_def)
  with prune_loop_ok [OF assms(1), of ?n tg]
  obtain out where out:
    "fold (prune_step (segments inp) (parents inp) tg
           (map Suc (filter (run_end (segments inp) tg) [0..<length (segments inp)]))
           (map (\<lambda>i. pruned_below (segments inp) tg (Suc i))
                (filter (run_end (segments inp) tg) [0..<length (segments inp)])))
       [0..<?n] (Inr empty_tree) = Inr out"
    "map seg_id (segments out) = [0..<length ?surv]"
    "map seg_key (segments out) = map (\<lambda>i. seg_key (segments inp ! i)) ?surv"
    "parents out = map (\<lambda>i. new_parent (segments inp) tg (parents inp ! i)) ?surv"
    by auto
  have run: "prune_tag inp tg = Inr (out, tag_roots inp tg)"
    using out(1) by (simp add: prune_tag_def Let_def prune_scan_closed tag_roots_eq tree_size_def)
  have "map (\<lambda>i. seg_key (segments inp ! i)) ?surv =
        map seg_key (filter (\<lambda>s. tag s \<noteq> tg) (map (\<lambda>i. segments inp ! i) [0..<?n]))"
    by (simp add: filter_map comp_def)
  then have keys: "map seg_key (segments out) = map seg_key (filter (\<lambda>s. tag s \<noteq> tg) (segments inp))"
    using out(3) by (simp add: tree_size_def map_nth)
  have "tree_size out = length ?surv"
    using arg_cong [OF out(2), of length] by (simp add: tree_size_def)
  then show ?thesis using run keys out(2,4) by simp
qed

text \<open>
  C3. When no surviving segment has a parent that carries the tag, \<open>prune_tag\<close> returns a tree
  that holds the segments of the input with another tag, in their order (geometry and tag;
  the ids are the new positions), and the parent of each is the old parent less the number
  of removed indices below it, the sentinel staying the sentinel.
\<close>

theorem prune_tag_survivors:
  assumes "tree_inv inp" and "\<not> has_unpruned_child inp tg"
  shows "\<exists>out roots. prune_tag inp tg = Inr (out, roots) \<and>
           map seg_key (segments out) = map seg_key (filter (\<lambda>s. tag s \<noteq> tg) (segments inp)) \<and>
           map seg_id (segments out) = [0..<tree_size out] \<and>
           parents out = map (\<lambda>i. new_parent (segments inp) tg (parents inp ! i))
                             (filter (\<lambda>i. tag (segments inp ! i) \<noteq> tg) [0..<tree_size inp])"
  using prune_tag_no_unpruned [OF assms] by blast

theorem prune_tag_survivors_witness:
  "tree_inv tagged_tree \<and> \<not> has_unpruned_child tagged_tree 1 \<and>
   (\<exists>out roots. prune_tag tagged_tree 1 = Inr (out, roots) \<and>
      map seg_key (segments out) = [(0, 1, 0), (1, 4, 0), (4, 5, 2), (7, 8, 0), (5, 6, 2)] \<and>
      map seg_id (segments out) = [0..<tree_size out] \<and>
      parents out = [mnpos, 0, 1, mnpos, 2])"
proof -
  have h: "\<not> has_unpruned_child tagged_tree 1"
    by (simp add: has_unpruned_child_list unpruned_at_def tagged_tree_eq tree_size_def mnpos_def
        upt_0_7)
  have k: "map seg_key (filter (\<lambda>s. tag s \<noteq> 1) (segments tagged_tree)) =
             [(0, 1, 0), (1, 4, 0), (4, 5, 2), (7, 8, 0), (5, 6, 2)]"
    by (simp add: tagged_tree_eq seg_key_def)
  have below: "pruned_below (segments tagged_tree) 1 0 = 0"
     "pruned_below (segments tagged_tree) 1 3 = 2" "pruned_below (segments tagged_tree) 1 4 = 2"
    by (simp_all add: pruned_below_def tagged_tree_eq upt_rec)
  have p: "map (\<lambda>i. new_parent (segments tagged_tree) 1 (parents tagged_tree ! i))
             (filter (\<lambda>i. tag (segments tagged_tree ! i) \<noteq> 1) [0..<tree_size tagged_tree]) =
           [mnpos, 0, 1, mnpos, 2]"
    using below by (simp add: tagged_tree_eq tree_size_def upt_0_7 new_parent_def mnpos_def)
  show ?thesis
    using prune_tag_survivors [OF tree_inv_tagged_tree h] tree_inv_tagged_tree h
    unfolding k p by simp
qed

text \<open>
  C4. \<open>prune_tag\<close> throws unpruned-child exactly when some segment with another tag has a
  parent that carries the tag; the error names the first such segment and its parent, no other
  error is thrown, and a call that throws returns no tree.
\<close>

theorem prune_tag_unpruned_child:
  assumes "tree_inv inp"
  shows "((\<exists>par child. prune_tag inp tg = Inl (unpruned_child par child tg)) \<longleftrightarrow>
            has_unpruned_child inp tg) \<and>
         (\<forall>e. prune_tag inp tg = Inl e \<longrightarrow>
            (\<exists>i < tree_size inp. unpruned_at inp tg i \<and> (\<forall>j < i. \<not> unpruned_at inp tg j) \<and>
                e = unpruned_child (parents inp ! i) i tg)) \<and>
         ((\<exists>out roots. prune_tag inp tg = Inr (out, roots)) \<longleftrightarrow> \<not> has_unpruned_child inp tg)"
proof (cases "has_unpruned_child inp tg")
  case False
  then show ?thesis using prune_tag_no_unpruned [OF assms False] by auto
next
  case True
  define i where "i = (LEAST i. i < tree_size inp \<and> unpruned_at inp tg i)"
  have ex: "\<exists>i. i < tree_size inp \<and> unpruned_at inp tg i"
    using True by (auto simp: has_unpruned_child_def)
  have i: "i < tree_size inp" "unpruned_at inp tg i"
    using LeastI_ex [OF ex] by (simp_all add: i_def)
  have first: "\<forall>j < i. \<not> unpruned_at inp tg j"
    using not_less_Least [of _ "\<lambda>i. i < tree_size inp \<and> unpruned_at inp tg i"] i(1)
    unfolding i_def [symmetric] by (metis less_trans)
  have "prune_tag inp tg = Inl (unpruned_child (parents inp ! i) i tg)"
    using prune_loop_error [OF assms i first]
    by (simp add: prune_tag_def Let_def prune_scan_closed tree_size_def)
  then show ?thesis using True i first by auto
qed

theorem prune_tag_unpruned_child_witness:
  "tree_inv tagged_tree \<and> has_unpruned_child tagged_tree 0 \<and>
   prune_tag tagged_tree 0 = Inl (unpruned_child 0 1 0) \<and>
   \<not> has_unpruned_child tagged_tree 1 \<and> (\<exists>out roots. prune_tag tagged_tree 1 = Inr (out, roots))"
proof -
  have h0: "has_unpruned_child tagged_tree 0"
    by (simp add: has_unpruned_child_list unpruned_at_def tagged_tree_eq tree_size_def mnpos_def
        upt_0_7)
  have h1: "\<not> has_unpruned_child tagged_tree 1"
    by (simp add: has_unpruned_child_list unpruned_at_def tagged_tree_eq tree_size_def mnpos_def
        upt_0_7)
  have e: "prune_tag tagged_tree 0 = Inl (unpruned_child 0 1 0)"
    by (simp add: prune_tag_def prune_scan_def prune_step_def tagged_tree_eq upt_0_7 mnpos_def
        append4_def empty_tree_def tree_size_def increment_def upper_bound_def)
  show ?thesis
    using prune_tag_unpruned_child [OF tree_inv_tagged_tree, of 0]
      prune_tag_unpruned_child [OF tree_inv_tagged_tree, of 1] tree_inv_tagged_tree h0 h1 e
    by simp
qed

text \<open>
  C5. When \<open>prune_tag\<close> succeeds, the tag roots it returns are those of \<open>tag_roots\<close>: the
  indices, in strictly ascending order, of the segments that carry the tag and whose parent
  is the sentinel or carries another tag.
\<close>

theorem prune_tag_roots:
  assumes "tree_inv inp" and "prune_tag inp tg = Inr (out, roots)"
  shows "roots = tag_roots inp tg \<and>
         tag_roots inp tg =
           filter (is_tag_root (segments inp) (parents inp) tg) [0..<tree_size inp] \<and>
         sorted_wrt (<) roots"
proof -
  have r: "roots = tag_roots inp tg" by (rule prune_tag_Inr_roots [OF assms(2)])
  have "sorted_wrt (<) (filter (is_tag_root (segments inp) (parents inp) tg) [0..<tree_size inp])"
    by (rule sorted_wrt_filter) (simp add: sorted_wrt_upt)
  then show ?thesis using r by (simp add: tag_roots_eq tree_size_def)
qed

theorem prune_tag_roots_witness:
  "tree_inv tagged_tree \<and>
   prune_tag tagged_tree 1 =
     Inr (build [(mnpos, 0, 1, 0), (0, 1, 4, 0), (1, 4, 5, 2), (mnpos, 7, 8, 0), (2, 5, 6, 2)], [1]) \<and>
   [1] = tag_roots tagged_tree 1 \<and> sorted_wrt (<) [1::nat]"
proof -
  have e: "prune_tag tagged_tree 1 =
     Inr (build [(mnpos, 0, 1, 0), (0, 1, 4, 0), (1, 4, 5, 2), (mnpos, 7, 8, 0), (2, 5, 6, 2)], [1])"
    by (simp add: prune_tag_def prune_scan_def prune_step_def tagged_tree_eq upt_0_7 mnpos_def
        build_def append4_def empty_tree_def tree_size_def increment_def upper_bound_def)
  show ?thesis
    using prune_tag_roots [OF tree_inv_tagged_tree e] tree_inv_tagged_tree e by blast
qed

section \<open>Structural equivalence of reordered trees\<close>

lemma sorted_key_unique:
  fixes k :: "'a \<Rightarrow> 'k::linorder"
  assumes "sorted (map k xs)" "sorted (map k ys)" "distinct (map k xs)" "distinct (map k ys)"
    and "set xs = set ys"
  shows "xs = ys"
proof -
  have "set (map k xs) = set (map k ys)" using assms(5) by simp
  then have keys: "map k xs = map k ys"
    using assms(1-4) by (intro sorted_distinct_set_unique)
  have "inj_on k (set xs \<union> set ys)"
    using assms(3,5) by (simp add: distinct_map)
  then show ?thesis using keys by (rule map_inj_on [rotated])
qed

lemma distinct_map_sort_key:
  "distinct (map k (sort_key k xs)) \<longleftrightarrow> distinct (map k xs)"
  by (simp add: distinct_map)

lemma match_children_map:
  assumes "\<And>s. s \<in> set xs \<Longrightarrow> seg_key (g s) = seg_key s"
  shows "match_children xs (map g xs) = Some (map (\<lambda>s. (seg_id s, seg_id (g s))) xs)"
  using assms
proof (induction xs)
  case Nil
  then show ?case by simp
next
  case (Cons x xs)
  have "seg_key (g x) = seg_key x" using Cons.prems by simp
  then have "prox x = prox (g x) \<and> dist x = dist (g x) \<and> tag x = tag (g x)"
    by (simp add: seg_key_def)
  then show ?case using Cons by simp
qed

lemma reorderingD:
  assumes "reordering f a b"
  shows "tree_size b = tree_size a" and "length f = tree_size a" and "distinct f"
    and "\<And>i. i < tree_size a \<Longrightarrow> f ! i < tree_size a"
    and "\<And>i. i < tree_size a \<Longrightarrow> seg_key (segments b ! (f ! i)) = seg_key (segments a ! i)"
    and "\<And>i. i < tree_size a \<Longrightarrow>
           parents b ! (f ! i) = (if parents a ! i = mnpos then mnpos else f ! (parents a ! i))"
  using assms by (auto simp: reordering_def)

lemma reordering_set:
  assumes "reordering f a b"
  shows "set f = {0..<tree_size a}"
proof -
  let ?n = "tree_size a"
  note r = reorderingD [OF assms]
  have sub: "set f \<subseteq> {0..<?n}"
    using r(2,4) by (auto simp: in_set_conv_nth)
  have "card (set f) = ?n" using r(2,3) by (simp add: distinct_card)
  then show ?thesis using sub by (simp add: card_subset_eq)
qed

lemma reordering_children:
  assumes inv: "tree_inv a" and small: "tree_size a \<le> mnpos" and re: "reordering f a b"
    and x: "x = mnpos \<or> x < tree_size a"
  shows "set (tree_to_children b (if x = mnpos then mnpos else f ! x)) =
         (\<lambda>i. f ! i) ` set (tree_to_children a x)"
proof -
  let ?n = "tree_size a"
  let ?F = "\<lambda>x. if x = mnpos then mnpos else f ! x"
  note r = reorderingD [OF re]
  have par: "parents a ! i = mnpos \<or> parents a ! i < ?n" if "i < ?n" for i
    using inv that unfolding tree_inv_def tree_size_def by (metis less_trans)
  have F_inj: "?F y = ?F z \<longleftrightarrow> y = z"
    if "y = mnpos \<or> y < ?n" "z = mnpos \<or> z < ?n" for y z
  proof -
    have "f ! y \<noteq> mnpos" if "y < ?n" for y using r(4) [OF that] small by simp
    moreover have "f ! y = f ! z \<longleftrightarrow> y = z" if "y < ?n" "z < ?n" for y z
      using that r(2,3) by (simp add: nth_eq_iff_index_eq)
    ultimately show ?thesis using that small by metis
  qed
  have pb: "parents b ! (f ! i) = ?F x \<longleftrightarrow> parents a ! i = x" if "i < ?n" for i
    using r(6) [OF that] F_inj [OF par [OF that] x] by simp
  show ?thesis
  proof (intro set_eqI iffI)
    fix j
    assume "j \<in> set (tree_to_children b (?F x))"
    then have j: "j < ?n" "parents b ! j = ?F x"
      by (simp_all add: tree_to_children_eq r(1))
    then have "j \<in> set f" using reordering_set [OF re] by simp
    then obtain i where i: "i < ?n" "j = f ! i"
      using r(2) by (auto simp: in_set_conv_nth)
    then have "parents a ! i = x" using pb j by simp
    then show "j \<in> (\<lambda>i. f ! i) ` set (tree_to_children a x)"
      using i by (simp add: tree_to_children_eq)
  next
    fix j
    assume "j \<in> (\<lambda>i. f ! i) ` set (tree_to_children a x)"
    then obtain i where i: "i < ?n" "parents a ! i = x" "j = f ! i"
      by (auto simp: tree_to_children_eq)
    then show "j \<in> set (tree_to_children b (?F x))"
      using pb r(4) by (simp add: tree_to_children_eq r(1))
  qed
qed

lemma distinct_siblingsD:
  "distinct_siblings t \<Longrightarrow> i < tree_size t \<Longrightarrow> j < tree_size t \<Longrightarrow>
   parents t ! i = parents t ! j \<Longrightarrow> seg_key (segments t ! i) = seg_key (segments t ! j) \<Longrightarrow>
   i = j"
  unfolding distinct_siblings_def by blast

lemma fetch_children_reordering:
  fixes a b :: "('p::linorder) segment_tree"
  assumes inv_a: "tree_inv a" and inv_b: "tree_inv b" and small: "tree_size a \<le> mnpos"
    and re: "reordering f a b" and ds: "distinct_siblings a"
    and x: "x = mnpos \<or> x < tree_size a"
  shows "fetch_children (if x = mnpos then mnpos else f ! x) (segments b) (tree_to_children b) =
         map (\<lambda>s. segments b ! (f ! seg_id s))
             (fetch_children x (segments a) (tree_to_children a))"
proof -
  let ?n = "tree_size a"
  let ?Ca = "tree_to_children a x"
  let ?Cb = "tree_to_children b (if x = mnpos then mnpos else f ! x)"
  let ?La = "map (\<lambda>ix. segments a ! ix) ?Ca"
  let ?Lb = "map (\<lambda>ix. segments b ! ix) ?Cb"
  let ?g = "\<lambda>s. segments b ! (f ! seg_id s)"
  let ?as = "sort_key seg_key ?La"
  let ?bs = "sort_key seg_key ?Lb"
  note r = reorderingD [OF re]
  have Ca: "i \<in> set ?Ca \<longleftrightarrow> i < ?n \<and> parents a ! i = x" for i
    by (auto simp: tree_to_children_eq)
  have dCa: "distinct ?Ca" and dCb: "distinct ?Cb"
    by (simp_all add: tree_to_children_eq)
  have Cb: "set ?Cb = (\<lambda>i. f ! i) ` set ?Ca"
    by (rule reordering_children [OF inv_a small re x])
  have id_a: "seg_id (segments a ! i) = i" if "i < ?n" for i
    using inv_a that by (simp add: tree_inv_def tree_size_def)
  have g: "?g (segments a ! i) = segments b ! (f ! i)" if "i < ?n" for i
    using id_a [OF that] by simp
  have gkey: "seg_key (?g s) = seg_key s" if "s \<in> set ?La" for s
  proof -
    from that obtain i where i: "i \<in> set ?Ca" "s = segments a ! i" by auto
    then have "i < ?n" using Ca by simp
    then show ?thesis using g [of i] r(5) [of i] i(2) by simp
  qed
  have inj_a: "inj_on (\<lambda>i. seg_key (segments a ! i)) (set ?Ca)"
  proof (rule inj_onI)
    fix i j
    assume i: "i \<in> set ?Ca" and j: "j \<in> set ?Ca"
      and eq: "seg_key (segments a ! i) = seg_key (segments a ! j)"
    have "i < ?n" "j < ?n" "parents a ! i = parents a ! j"
      using i j Ca by simp_all
    then show "i = j" using eq by (rule distinct_siblingsD [OF ds])
  qed
  have inj_b: "inj_on (\<lambda>j. seg_key (segments b ! j)) (set ?Cb)"
    unfolding Cb
  proof (rule inj_onI)
    fix j j'
    assume j: "j \<in> (\<lambda>i. f ! i) ` set ?Ca" and j': "j' \<in> (\<lambda>i. f ! i) ` set ?Ca"
      and eq: "seg_key (segments b ! j) = seg_key (segments b ! j')"
    from j obtain i where i: "i \<in> set ?Ca" "j = f ! i" by auto
    from j' obtain i' where i': "i' \<in> set ?Ca" "j' = f ! i'" by auto
    have "seg_key (segments a ! i) = seg_key (segments a ! i')"
      using eq i i' r(5) Ca by simp
    then have "i = i'" using inj_a i(1) i'(1) by (simp add: inj_on_def)
    then show "j = j'" using i i' by simp
  qed
  have dLa: "distinct (map seg_key ?La)"
    using dCa inj_a by (simp add: distinct_map comp_def)
  have dLb: "distinct (map seg_key ?Lb)"
    using dCb inj_b by (simp add: distinct_map comp_def)
  have keys: "map seg_key (map ?g ?as) = map seg_key ?as"
    using gkey by (simp add: comp_def)
  have s1: "sorted (map seg_key ?bs)" by (rule sorted_sort_key)
  have s2: "sorted (map seg_key (map ?g ?as))" unfolding keys by (rule sorted_sort_key)
  have d1: "distinct (map seg_key ?bs)" using dLb by (simp only: distinct_map_sort_key)
  have d2: "distinct (map seg_key (map ?g ?as))"
    unfolding keys using dLa by (simp only: distinct_map_sort_key)
  have "set ?Lb = (\<lambda>i. segments b ! (f ! i)) ` set ?Ca"
    using Cb by (simp add: image_image)
  moreover have "set (map ?g ?as) = (\<lambda>i. segments b ! (f ! i)) ` set ?Ca"
  proof -
    have "set (map ?g ?as) = (\<lambda>i. ?g (segments a ! i)) ` set ?Ca"
      by (simp add: image_image)
    also have "\<dots> = (\<lambda>i. segments b ! (f ! i)) ` set ?Ca"
      by (rule image_cong [OF refl]) (simp add: Ca g)
    finally show ?thesis .
  qed
  ultimately have sets: "set ?bs = set (map ?g ?as)" by simp
  have "?bs = map ?g ?as"
    by (rule sorted_key_unique [OF s1 s2 d1 d2 sets])
  then show ?thesis by (simp add: fetch_children_def)
qed

lemma fetch_children_set:
  fixes a :: "('p::linorder) segment_tree"
  shows "set (fetch_children x (segments a) (tree_to_children a)) =
         (\<lambda>i. segments a ! i) ` {i. i < tree_size a \<and> parents a ! i = x}"
  by (auto simp: fetch_children_def tree_to_children_eq)

lemma equivalent_loop_pairs:
  assumes "\<And>c rest. c \<in> set cs \<Longrightarrow>
             equivalent_loop sa ca sb cb ((c, f ! c) # rest) = equivalent_loop sa ca sb cb rest"
  shows "equivalent_loop sa ca sb cb (map (\<lambda>c. (c, f ! c)) cs @ rest) =
         equivalent_loop sa ca sb cb rest"
  using assms by (induction cs) simp_all

lemma equivalent_loop_step:
  fixes a b :: "('p::linorder) segment_tree"
  assumes inv_a: "tree_inv a" and inv_b: "tree_inv b" and small: "tree_size a \<le> mnpos"
    and re: "reordering f a b" and ds: "distinct_siblings a"
    and x: "x = mnpos \<or> x < tree_size a"
    and children: "\<And>c rest. c < tree_size a \<Longrightarrow> parents a ! c = x \<Longrightarrow>
        equivalent_loop (segments a) (tree_to_children a) (segments b) (tree_to_children b)
          ((c, f ! c) # rest) =
        equivalent_loop (segments a) (tree_to_children a) (segments b) (tree_to_children b) rest"
  shows "equivalent_loop (segments a) (tree_to_children a) (segments b) (tree_to_children b)
           ((x, if x = mnpos then mnpos else f ! x) # rest) =
         equivalent_loop (segments a) (tree_to_children a) (segments b) (tree_to_children b) rest"
proof -
  let ?n = "tree_size a"
  let ?loop = "equivalent_loop (segments a) (tree_to_children a) (segments b) (tree_to_children b)"
  let ?as = "fetch_children x (segments a) (tree_to_children a)"
  let ?bs = "fetch_children (if x = mnpos then mnpos else f ! x) (segments b) (tree_to_children b)"
  let ?g = "\<lambda>s. segments b ! (f ! seg_id s)"
  note r = reorderingD [OF re]
  have bs: "?bs = map ?g ?as"
    by (rule fetch_children_reordering [OF inv_a inv_b small re ds x])
  have mem: "\<exists>c. c < ?n \<and> parents a ! c = x \<and> s = segments a ! c \<and> seg_id s = c" if "s \<in> set ?as" for s
  proof -
    from that obtain c where c: "c < ?n" "parents a ! c = x" "s = segments a ! c"
      unfolding fetch_children_set by auto
    moreover have "seg_id (segments a ! c) = c"
      using inv_a c(1) by (simp add: tree_inv_def tree_size_def)
    ultimately show ?thesis by auto
  qed
  have id_b: "seg_id (?g s) = f ! seg_id s" if "s \<in> set ?as" for s
  proof -
    from mem [OF that] obtain c where c: "c < ?n" "seg_id s = c" by auto
    have "f ! c < length (segments b)" using r(4) [OF c(1)] r(1) by (simp add: tree_size_def)
    then show ?thesis using inv_b c(2) by (simp add: tree_inv_def)
  qed
  have key: "seg_key (?g s) = seg_key s" if "s \<in> set ?as" for s
  proof -
    from mem [OF that] obtain c where c: "c < ?n" "s = segments a ! c" "seg_id s = c" by auto
    show ?thesis using r(5) [OF c(1)] c(2,3) by simp
  qed
  have "match_children ?as (map ?g ?as) = Some (map (\<lambda>s. (seg_id s, seg_id (?g s))) ?as)"
    by (rule match_children_map) (rule key)
  also have "map (\<lambda>s. (seg_id s, seg_id (?g s))) ?as = map (\<lambda>c. (c, f ! c)) (map seg_id ?as)"
    using id_b by (simp add: comp_def)
  finally have m: "match_children ?as ?bs = Some (map (\<lambda>c. (c, f ! c)) (map seg_id ?as))"
    unfolding bs .
  have len: "length ?as = length ?bs" unfolding bs by simp
  have "?loop ((x, if x = mnpos then mnpos else f ! x) # rest) =
        ?loop (rev (map (\<lambda>c. (c, f ! c)) (map seg_id ?as)) @ rest)"
    by (subst equivalent_loop.simps) (simp add: len m Let_def)
  also have "rev (map (\<lambda>c. (c, f ! c)) (map seg_id ?as)) = map (\<lambda>c. (c, f ! c)) (rev (map seg_id ?as))"
    by (simp add: rev_map)
  also have "?loop (map (\<lambda>c. (c, f ! c)) (rev (map seg_id ?as)) @ rest) = ?loop rest"
  proof (rule equivalent_loop_pairs)
    fix c rest'
    assume "c \<in> set (rev (map seg_id ?as))"
    then obtain s where "s \<in> set ?as" "c = seg_id s" by auto
    with mem obtain "c < ?n" "parents a ! c = x" by metis
    then show "?loop ((c, f ! c) # rest') = ?loop rest'" by (rule children)
  qed
  finally show ?thesis .
qed

lemma equivalent_loop_subtree:
  fixes a b :: "('p::linorder) segment_tree"
  assumes inv_a: "tree_inv a" and inv_b: "tree_inv b" and small: "tree_size a \<le> mnpos"
    and re: "reordering f a b" and ds: "distinct_siblings a"
  shows "x < tree_size a \<Longrightarrow>
         equivalent_loop (segments a) (tree_to_children a) (segments b) (tree_to_children b)
           ((x, f ! x) # rest) =
         equivalent_loop (segments a) (tree_to_children a) (segments b) (tree_to_children b) rest"
proof (induction "tree_size a - x" arbitrary: x rest rule: less_induct)
  case less
  have x: "x \<noteq> mnpos" using less.prems small by simp
  have "equivalent_loop (segments a) (tree_to_children a) (segments b) (tree_to_children b)
           ((x, if x = mnpos then mnpos else f ! x) # rest) =
         equivalent_loop (segments a) (tree_to_children a) (segments b) (tree_to_children b) rest"
  proof (rule equivalent_loop_step [OF inv_a inv_b small re ds])
    show "x = mnpos \<or> x < tree_size a" using less.prems by simp
  next
    fix c rest'
    assume c: "c < tree_size a" "parents a ! c = x"
    then have "x < c" using inv_a x unfolding tree_inv_def tree_size_def by metis
    then have "tree_size a - c < tree_size a - x" using c(1) by simp
    then show "equivalent_loop (segments a) (tree_to_children a) (segments b) (tree_to_children b)
          ((c, f ! c) # rest') =
        equivalent_loop (segments a) (tree_to_children a) (segments b) (tree_to_children b) rest'"
      using c(1) by (rule less.hyps)
  qed
  then show ?case using x by simp
qed

lemma equivalent_reordering:
  fixes a b :: "('p::linorder) segment_tree"
  assumes inv_a: "tree_inv a" and inv_b: "tree_inv b" and small: "tree_size a \<le> mnpos"
    and re: "reordering f a b" and ds: "distinct_siblings a"
  shows "equivalent a b = Some True"
proof -
  have "equivalent_loop (segments a) (tree_to_children a) (segments b) (tree_to_children b)
           ((mnpos, if mnpos = mnpos then mnpos else f ! mnpos) # []) =
         equivalent_loop (segments a) (tree_to_children a) (segments b) (tree_to_children b) []"
    by (rule equivalent_loop_step [OF inv_a inv_b small re ds])
       (simp_all add: equivalent_loop_subtree [OF inv_a inv_b small re ds])
  also have "\<dots> = Some True" by (subst equivalent_loop.simps) simp
  finally show ?thesis
    using reorderingD(1) [OF re] by (simp add: equivalent_def)
qed

section \<open>Evaluation of the loops on given trees\<close>

lemma all_less_list: "(\<forall>i<n. P i) \<longleftrightarrow> list_all P [0..<n]"
  by (auto simp: list_all_iff)

lemma upt_0_4: "[0..<4] = [0, 1, 2, 3]"
  by (simp add: upt_rec)

lemma fork_tree_eq:
  "fork_tree = \<lparr>segments = [\<lparr>seg_id = 0, prox = 0, dist = 1, tag = 0\<rparr>,
                             \<lparr>seg_id = 1, prox = 1, dist = 2, tag = 0\<rparr>,
                             \<lparr>seg_id = 2, prox = 1, dist = 3, tag = 0\<rparr>,
                             \<lparr>seg_id = 3, prox = 2, dist = 4, tag = 0\<rparr>],
                 parents = [mnpos, 0, 0, 1],
                 seg_children = [child_prop 2, child_prop 1, child_prop 0, child_prop 0]\<rparr>"
  by (simp add: fork_tree_def build_def append4_def empty_tree_def tree_size_def increment_def
        mnpos_def)

lemma fork_tree_reordered_eq:
  "fork_tree_reordered = \<lparr>segments = [\<lparr>seg_id = 0, prox = 0, dist = 1, tag = 0\<rparr>,
                             \<lparr>seg_id = 1, prox = 1, dist = 3, tag = 0\<rparr>,
                             \<lparr>seg_id = 2, prox = 1, dist = 2, tag = 0\<rparr>,
                             \<lparr>seg_id = 3, prox = 2, dist = 4, tag = 0\<rparr>],
                 parents = [mnpos, 0, 0, 2],
                 seg_children = [child_prop 2, child_prop 0, child_prop 1, child_prop 0]\<rparr>"
  by (simp add: fork_tree_reordered_def build_def append4_def empty_tree_def tree_size_def
        increment_def mnpos_def)




lemma twin_children: "tree_to_children twin_tree x = (if x = mnpos then [0] else if x = 0 then [1, 2] else if x = 1 then [3] else [])"
  by (simp add: tree_to_children_eq twin_tree_eq tree_size_def upt_0_4 mnpos_def)

lemma twin_reordered_children: "tree_to_children twin_tree_reordered x = (if x = mnpos then [0] else if x = 0 then [1, 2] else if x = 2 then [3] else [])"
  by (simp add: tree_to_children_eq twin_tree_reordered_eq tree_size_def upt_0_4 mnpos_def)

lemma equivalent_loop_Nil:
  "equivalent_loop sa ca sb cb [] = Some True"
  by (subst equivalent_loop.simps) simp

lemma equivalent_loop_Cons:
  "equivalent_loop sa ca sb cb ((x, y) # rest) =
     (if length (fetch_children x sa ca) \<noteq> length (fetch_children y sb cb) then Some False
      else (case match_children (fetch_children x sa ca) (fetch_children y sb cb) of
              None \<Rightarrow> Some False
            | Some new \<Rightarrow> equivalent_loop sa ca sb cb (rev new @ rest)))"
  by (subst equivalent_loop.simps) (simp add: Let_def)

lemma copy_loop_Nil:
  "copy_loop ch segs pred [] r = Some (Inr r)"
  by (subst copy_loop.simps) simp

lemma copy_loop_Cons:
  "copy_loop ch segs pred (nd # rest) r =
     (if \<not> pred nd then copy_loop ch segs pred rest r
      else if node_id nd \<ge> length segs then Some (Inl (out_of_range (node_id nd)))
      else (case append4 r (parent nd) (prox (segs ! node_id nd)) (dist (segs ! node_id nd))
                   (tag (segs ! node_id nd)) of
              (Inl e, _) \<Rightarrow> Some (Inl e)
            | (Inr current, r') \<Rightarrow>
                copy_loop ch segs pred (rev (map (node_t current) (ch (node_id nd))) @ rest) r'))"
  by (subst copy_loop.simps) (simp add: Let_def)

lemma twin_segments:
  "segments twin_tree = [\<lparr>seg_id = 0, prox = 0, dist = 1, tag = 0\<rparr>,
                             \<lparr>seg_id = 1, prox = 1, dist = 2, tag = 0\<rparr>,
                             \<lparr>seg_id = 2, prox = 1, dist = 2, tag = 0\<rparr>,
                             \<lparr>seg_id = 3, prox = 2, dist = 3, tag = 0\<rparr>]"
  "segments twin_tree_reordered = [\<lparr>seg_id = 0, prox = 0, dist = 1, tag = 0\<rparr>,
                             \<lparr>seg_id = 1, prox = 1, dist = 2, tag = 0\<rparr>,
                             \<lparr>seg_id = 2, prox = 1, dist = 2, tag = 0\<rparr>,
                             \<lparr>seg_id = 3, prox = 2, dist = 3, tag = 0\<rparr>]"
  "tree_size twin_tree = 4" "tree_size twin_tree_reordered = 4"
  by (simp_all add: twin_tree_eq twin_tree_reordered_eq tree_size_def)

lemma tree_inv_build: "tree_inv (build calls)"
  by (rule reachable_tree_inv [OF reachable_build])

section \<open>The numbering of a subtree copy\<close>

lemma index_of_append:
  "index_of y (xs @ ys) = (if y \<in> set xs then index_of y xs else length xs + index_of y ys)"
  by (induction xs) auto

lemma index_of_less: "y \<in> set xs \<Longrightarrow> index_of y xs < length xs"
  by (induction xs) auto

lemma nth_index_of: "y \<in> set xs \<Longrightarrow> xs ! index_of y xs = y"
  by (induction xs) auto

lemma index_of_nth: "distinct xs \<Longrightarrow> i < length xs \<Longrightarrow> index_of (xs ! i) xs = i"
proof (induction xs arbitrary: i)
  case Nil
  then show ?case by simp
next
  case (Cons x xs)
  then show ?case by (cases i) auto
qed

lemma index_of_inj:
  "y \<in> set xs \<Longrightarrow> index_of y xs = index_of z xs \<Longrightarrow> z \<in> set xs \<Longrightarrow> y = z"
  by (metis nth_index_of)

text \<open>The children of a segment, as the copy loop sees them.\<close>

lemma children_filter:
  assumes "tree_inv t" and "x \<noteq> mnpos"
  shows "filter (\<lambda>c. parents t ! c = x \<and> x < c) [0..<length (parents t)] = tree_to_children t x"
proof -
  have len: "length (parents t) = tree_size t"
    using assms(1) by (simp add: tree_inv_def tree_size_def)
  have "x < c" if "c < tree_size t" "parents t ! c = x" for c
    using assms that unfolding tree_inv_def tree_size_def by metis
  then have "filter (\<lambda>c. parents t ! c = x \<and> x < c) [0..<tree_size t] =
             filter (\<lambda>c. parents t ! c = x) [0..<tree_size t]"
    by (intro filter_cong [OF refl]) auto
  then show ?thesis by (simp add: len tree_to_children_eq)
qed

lemma preorder_keep: "y \<in> set (preorder ps keep x) \<Longrightarrow> keep y"
proof (induction ps keep x rule: preorder.induct)
  case (1 ps keep x)
  then show ?case
    by (subst (asm) (2) preorder.simps) (auto split: if_splits)
qed

lemma preorder_bounds: "y \<in> set (preorder ps keep x) \<Longrightarrow> y = x \<or> (x < y \<and> y < length ps)"
proof (induction ps keep x rule: preorder.induct)
  case (1 ps keep x)
  from "1.prems" have "keep x" and
    "y = x \<or> (\<exists>c. ps ! c = x \<and> x < c \<and> c < length ps \<and> y \<in> set (preorder ps keep c))"
    by (subst (asm) preorder.simps, auto split: if_splits)+
  then show ?case using "1.IH" by fastforce
qed

lemma preorder_closed:
  "y \<in> set (preorder ps keep x) \<Longrightarrow> y \<noteq> x \<Longrightarrow>
   ps ! y \<in> set (preorder ps keep x) \<and> ps ! y < y"
proof (induction ps keep x rule: preorder.induct)
  case (1 ps keep x)
  from "1.prems" have k: "keep x" and
    "\<exists>c. ps ! c = x \<and> x < c \<and> c < length ps \<and> y \<in> set (preorder ps keep c)"
    by (subst (asm) preorder.simps, auto split: if_splits)+
  then obtain c where c: "ps ! c = x" "x < c" "c < length ps" "y \<in> set (preorder ps keep c)"
    by auto
  have sub: "set (preorder ps keep c) \<subseteq> set (preorder ps keep x)"
    using c k by (subst (2) preorder.simps) auto
  have x_in: "x \<in> set (preorder ps keep x)"
    using k by (subst preorder.simps) simp
  show ?case
  proof (cases "y = c")
    case True
    then show ?thesis using c x_in by simp
  next
    case False
    then show ?thesis using "1.IH" [of c] k c sub by auto
  qed
qed

lemma preorder_self: "keep x \<Longrightarrow> x \<in> set (preorder ps keep x)"
  by (subst preorder.simps) simp

lemma preorder_child:
  "q \<in> set (preorder ps keep x) \<Longrightarrow> ps ! i = q \<Longrightarrow> q < i \<Longrightarrow> i < length ps \<Longrightarrow> keep i \<Longrightarrow>
   i \<in> set (preorder ps keep x)"
proof (induction ps keep x rule: preorder.induct)
  case (1 ps keep x)
  from "1.prems"(1) have k: "keep x" and
    q: "q = x \<or> (\<exists>c. ps ! c = x \<and> x < c \<and> c < length ps \<and> q \<in> set (preorder ps keep c))"
    by (subst (asm) preorder.simps, auto split: if_splits)+
  have sub: "set (preorder ps keep c) \<subseteq> set (preorder ps keep x)"
    if "ps ! c = x" "x < c" "c < length ps" for c
    using that k by (subst (2) preorder.simps) auto
  show ?case
  proof (cases "q = x")
    case True
    then have "i \<in> set (preorder ps keep i)" using "1.prems" by (simp add: preorder_self)
    then show ?thesis using sub [of i] True "1.prems" by auto
  next
    case False
    then obtain c where c: "ps ! c = x" "x < c" "c < length ps" "q \<in> set (preorder ps keep c)"
      using q by auto
    then have "i \<in> set (preorder ps keep c)"
      using "1.IH" [of c] k "1.prems" by simp
    then show ?thesis using sub c by auto
  qed
qed

lemma preorder_branch:
  assumes c: "ps ! c = x" and x: "x < c \<or> length ps \<le> x" and len: "c < length ps"
  shows "y \<in> set (preorder ps keep c) \<Longrightarrow> branch_of ps x y = c"
proof (induction y rule: less_induct)
  case (less y)
  show ?case
  proof (cases "y = c")
    case True
    then show ?thesis using c by (subst branch_of.simps) simp
  next
    case False
    then have up: "ps ! y \<in> set (preorder ps keep c)" "ps ! y < y"
      using preorder_closed [OF less.prems] by simp_all
    have "ps ! y \<noteq> x" using preorder_bounds [OF up(1)] x len by auto
    then have "branch_of ps x y = branch_of ps x (ps ! y)"
      using up(2) by (subst branch_of.simps) simp
    then show ?thesis using less.IH [OF up(2) up(1)] by simp
  qed
qed

lemma siblings_Cons:
  "siblings ps x (c # L) \<longleftrightarrow>
     c \<notin> set L \<and> c < length ps \<and> ps ! c = x \<and> (x < c \<or> length ps \<le> x) \<and> siblings ps x L"
  by (auto simp: siblings_def)

lemma forest_mem:
  assumes "siblings ps x L" and "y \<in> set (concat (map (preorder ps keep) L))"
  shows "y < length ps" and "y \<noteq> x" and "keep y" and "branch_of ps x y \<in> set L"
    and "y \<in> set (preorder ps keep (branch_of ps x y))"
    and "ps ! y = x \<or> (ps ! y \<in> set (concat (map (preorder ps keep) L)) \<and> ps ! y < y)"
    and "x < y \<or> length ps \<le> x"
proof -
  from assms(2) obtain c where c: "c \<in> set L" "y \<in> set (preorder ps keep c)" by auto
  then have cs: "c < length ps" "ps ! c = x" "x < c \<or> length ps \<le> x"
    using assms(1) by (auto simp: siblings_def)
  have b: "y = c \<or> (c < y \<and> y < length ps)" by (rule preorder_bounds [OF c(2)])
  show "y < length ps" using b cs by auto
  show "y \<noteq> x" using b cs by auto
  show "x < y \<or> length ps \<le> x" using b cs by auto
  show "keep y" by (rule preorder_keep [OF c(2)])
  have br: "branch_of ps x y = c" by (rule preorder_branch [OF cs(2,3,1) c(2)])
  show "branch_of ps x y \<in> set L" using br c by simp
  show "y \<in> set (preorder ps keep (branch_of ps x y))" using br c by simp
  show "ps ! y = x \<or> (ps ! y \<in> set (concat (map (preorder ps keep) L)) \<and> ps ! y < y)"
  proof (cases "y = c")
    case True
    then show ?thesis using cs by simp
  next
    case False
    then show ?thesis using preorder_closed [OF c(2)] c(1) by auto
  qed
qed

lemma forest_disjoint:
  assumes "siblings ps x (c # L)"
  shows "set (preorder ps keep c) \<inter> set (concat (map (preorder ps keep) L)) = {}"
proof (rule ccontr)
  assume "\<not> ?thesis"
  then obtain y where y: "y \<in> set (preorder ps keep c)" "y \<in> set (concat (map (preorder ps keep) L))"
    by auto
  have s: "c \<notin> set L" "c < length ps" "ps ! c = x" "x < c \<or> length ps \<le> x" "siblings ps x L"
    using assms by (simp_all add: siblings_Cons)
  have "branch_of ps x y = c" by (rule preorder_branch [OF s(3,4,2) y(1)])
  moreover have "branch_of ps x y \<in> set L" by (rule forest_mem(4) [OF s(5) y(2)])
  ultimately show False using s(1) by simp
qed

lemma forest_distinct:
  assumes "\<And>c. c \<in> set L \<Longrightarrow> distinct (preorder ps keep c)"
  shows "siblings ps x L \<Longrightarrow> distinct (concat (map (preorder ps keep) L))"
  using assms
proof (induction L)
  case Nil
  then show ?case by simp
next
  case (Cons c L)
  have "siblings ps x L" using Cons.prems(1) by (simp add: siblings_Cons)
  then show ?case
    using Cons forest_disjoint [OF Cons.prems(1), of keep] by simp
qed

lemma siblings_children:
  "siblings ps x (rev (filter (\<lambda>c. ps ! c = x \<and> x < c) [0..<length ps]))"
  by (auto simp: siblings_def)

lemma preorder_distinct: "distinct (preorder ps keep x)"
proof (induction ps keep x rule: preorder.induct)
  case (1 ps keep x)
  let ?L = "rev (filter (\<lambda>c. ps ! c = x \<and> x < c) [0..<length ps])"
  have d: "distinct (concat (map (preorder ps keep) ?L))" if "keep x"
    by (rule forest_distinct [OF _ siblings_children]) (use "1.IH" that in auto)
  have "x \<notin> set (concat (map (preorder ps keep) ?L))"
    using forest_mem(2) [OF siblings_children] by blast
  then show ?case using d by (subst preorder.simps) simp
qed

lemma forest_distinct':
  "siblings ps x L \<Longrightarrow> distinct (concat (map (preorder ps keep) L))"
  by (rule forest_distinct) (rule preorder_distinct)

lemma dest_parent_forest_append:
  assumes sib: "siblings ps x (c # L)"
  shows "map (dest_parent ps (preorder ps keep c @ concat (map (preorder ps keep) L)) base ext)
             (preorder ps keep c @ concat (map (preorder ps keep) L)) =
         map (dest_parent ps (preorder ps keep c) base ext) (preorder ps keep c) @
         map (dest_parent ps (concat (map (preorder ps keep) L))
                (base + length (preorder ps keep c)) ext)
             (concat (map (preorder ps keep) L))"
proof -
  let ?Vc = "preorder ps keep c" and ?VL = "concat (map (preorder ps keep) L)"
  have s: "c \<notin> set L" "c < length ps" "ps ! c = x" "x < c \<or> length ps \<le> x" "siblings ps x L"
    using sib by (simp_all add: siblings_Cons)
  have disj: "set ?Vc \<inter> set ?VL = {}" by (rule forest_disjoint [OF sib])
  have x_VL: "x \<notin> set ?VL" using forest_mem(2) [OF s(5)] by blast
  have x_Vc: "x \<notin> set ?Vc" using preorder_bounds [of x ps keep c] s by auto
  have left: "dest_parent ps (?Vc @ ?VL) base ext y = dest_parent ps ?Vc base ext y"
    if "y \<in> set ?Vc" for y
  proof (cases "ps ! y \<in> set ?Vc")
    case True
    then show ?thesis by (simp add: dest_parent_def index_of_append)
  next
    case False
    then have "y = c" using preorder_closed [OF that] by blast
    then have "ps ! y = x" using s by simp
    then show ?thesis using x_VL x_Vc by (simp add: dest_parent_def)
  qed
  have right: "dest_parent ps (?Vc @ ?VL) base ext y =
               dest_parent ps ?VL (base + length ?Vc) ext y"
    if "y \<in> set ?VL" for y
  proof (cases "ps ! y \<in> set ?VL")
    case True
    then have "ps ! y \<notin> set ?Vc" using disj by auto
    then show ?thesis using True by (simp add: dest_parent_def index_of_append)
  next
    case False
    then have "ps ! y = x" using forest_mem(6) [OF s(5) that] by simp
    then show ?thesis using x_VL x_Vc by (simp add: dest_parent_def)
  qed
  show ?thesis using left right by simp
qed

lemma dest_parent_preorder_Cons:
  assumes sib: "siblings ps x L" and x: "x < length ps"
    and par: "ps ! x < x \<or> length ps \<le> ps ! x"
  shows "map (dest_parent ps (x # concat (map (preorder ps keep) L)) base ext)
             (x # concat (map (preorder ps keep) L)) =
         ext # map (dest_parent ps (concat (map (preorder ps keep) L)) (Suc base) base)
                   (concat (map (preorder ps keep) L))"
proof -
  let ?VL = "concat (map (preorder ps keep) L)"
  have above: "x < y \<and> y < length ps" if "y \<in> set ?VL" for y
    using forest_mem(1,7) [OF sib that] x by auto
  have x_VL: "x \<notin> set ?VL" using above by blast
  have "ps ! x \<notin> set ?VL"
  proof
    assume "ps ! x \<in> set ?VL"
    then have "x < ps ! x \<and> ps ! x < length ps" by (rule above)
    then show False using par by simp
  qed
  moreover have "ps ! x \<noteq> x" using par x by auto
  ultimately have "ps ! x \<notin> set (x # ?VL)" by simp
  then have head: "dest_parent ps (x # ?VL) base ext x = ext"
    by (simp add: dest_parent_def)
  have tail: "dest_parent ps (x # ?VL) base ext y = dest_parent ps ?VL (Suc base) base y"
    if "y \<in> set ?VL" for y
  proof (cases "ps ! y = x")
    case True
    then show ?thesis using x_VL by (simp add: dest_parent_def)
  next
    case False
    then have "ps ! y \<in> set ?VL" using forest_mem(6) [OF sib that] by simp
    then show ?thesis using False by (simp add: dest_parent_def)
  qed
  show ?thesis using head tail by simp
qed

lemma grafted_size: "grafted s V p r r' \<Longrightarrow> tree_size r' = tree_size r + length V"
  unfolding grafted_def tree_size_def by (metis length_append length_map)

lemma grafted_Nil: "tree_inv r \<Longrightarrow> grafted s [] p r r"
  by (simp add: grafted_def)

lemma grafted_forest_append:
  assumes sib: "siblings (parents s) x (c # L)"
    and g1: "grafted s (preorder (parents s) keep c) b r r2"
    and g2: "grafted s (concat (map (preorder (parents s) keep) L)) b r2 r3"
  shows "grafted s (concat (map (preorder (parents s) keep) (c # L))) b r r3"
proof -
  have sz: "tree_size r2 = tree_size r + length (preorder (parents s) keep c)"
    by (rule grafted_size [OF g1])
  show ?thesis
    using g1 g2 dest_parent_forest_append [OF sib, of keep "tree_size r" b]
    unfolding grafted_def sz by simp
qed

lemma grafted_preorder_Cons:
  assumes inv: "tree_inv s" and x: "x < tree_size s" and small: "tree_size s \<le> mnpos"
    and keep: "keep x"
    and inv1: "tree_inv r1"
    and segs1: "segments r1 = segments r @
          [\<lparr>seg_id = tree_size r, prox = prox (segments s ! x), dist = dist (segments s ! x),
            tag = tag (segments s ! x)\<rparr>]"
    and pars1: "parents r1 = parents r @ [p]"
    and g: "grafted s (concat (map (preorder (parents s) keep) (rev (tree_to_children s x))))
              (tree_size r) r1 r'"
  shows "grafted s (preorder (parents s) keep x) p r r'"
proof -
  let ?ps = "parents s"
  let ?L = "rev (tree_to_children s x)"
  let ?VL = "concat (map (preorder ?ps keep) ?L)"
  have len: "length ?ps = tree_size s"
    using inv by (simp add: tree_inv_def tree_size_def)
  have xn: "x \<noteq> mnpos" using x small by simp
  have L: "rev (filter (\<lambda>c. ?ps ! c = x \<and> x < c) [0..<length ?ps]) = ?L"
    by (simp add: children_filter [OF inv xn])
  have pre: "preorder ?ps keep x = x # ?VL"
    using keep by (subst preorder.simps) (simp add: L)
  have sib: "siblings ?ps x ?L"
    using siblings_children [of ?ps x] unfolding L .
  have par: "?ps ! x < x \<or> length ?ps \<le> ?ps ! x"
    using inv x small unfolding tree_inv_def tree_size_def by (metis len tree_size_def)
  have sz1: "tree_size r1 = Suc (tree_size r)"
    using segs1 by (simp add: tree_size_def)
  have dp: "map (dest_parent ?ps (x # ?VL) (tree_size r) p) (x # ?VL) =
            p # map (dest_parent ?ps ?VL (Suc (tree_size r)) (tree_size r)) ?VL"
    by (rule dest_parent_preorder_Cons [OF sib _ par]) (simp add: len x)
  show ?thesis
    using g unfolding grafted_def pre dp sz1 segs1 pars1
    by (simp add: seg_key_def)
qed

lemma copy_loop_nodes:
  assumes sib: "siblings (parents s) x L"
    and node: "\<And>c r. c \<in> set L \<Longrightarrow> tree_inv r \<Longrightarrow> b < tree_size r \<or> b = mnpos \<Longrightarrow>
        \<exists>r'. (\<forall>rest. copy_loop ch segs pred (node_t b c # rest) r = copy_loop ch segs pred rest r') \<and>
             grafted s (preorder (parents s) keep c) b r r'"
  shows "tree_inv r \<Longrightarrow> b < tree_size r \<or> b = mnpos \<Longrightarrow>
    \<exists>r'. (\<forall>rest. copy_loop ch segs pred (map (node_t b) L @ rest) r = copy_loop ch segs pred rest r') \<and>
         grafted s (concat (map (preorder (parents s) keep) L)) b r r'"
  using sib node
proof (induction L arbitrary: r)
  case Nil
  then show ?case by (auto intro: grafted_Nil)
next
  case (Cons c L)
  from Cons.prems(4) [of c r] Cons.prems(1,2)
  obtain r2 where r2:
    "\<And>rest. copy_loop ch segs pred (node_t b c # rest) r = copy_loop ch segs pred rest r2"
    "grafted s (preorder (parents s) keep c) b r r2"
    by auto
  have inv2: "tree_inv r2" using r2(2) by (simp add: grafted_def)
  have b2: "b < tree_size r2 \<or> b = mnpos"
    using grafted_size [OF r2(2)] Cons.prems(2) by auto
  have sibL: "siblings (parents s) x L" using Cons.prems(3) by (simp add: siblings_Cons)
  from Cons.IH [OF inv2 b2 sibL] Cons.prems(4)
  obtain r3 where r3:
    "\<And>rest. copy_loop ch segs pred (map (node_t b) L @ rest) r2 = copy_loop ch segs pred rest r3"
    "grafted s (concat (map (preorder (parents s) keep) L)) b r2 r3"
    by auto
  have "grafted s (concat (map (preorder (parents s) keep) (c # L))) b r r3"
    by (rule grafted_forest_append [OF Cons.prems(3) r2(2) r3(2)])
  moreover have "copy_loop ch segs pred (map (node_t b) (c # L) @ rest) r =
                 copy_loop ch segs pred rest r3" for rest
    using r2(1) r3(1) by simp
  ultimately show ?case by blast
qed

lemma copy_loop_node:
  fixes s :: "'p segment_tree"
  assumes inv: "tree_inv s" and small: "tree_size s \<le> mnpos"
    and pred: "\<And>nd. pred nd = keep (node_id nd)"
  shows "x < tree_size s \<Longrightarrow> tree_inv r \<Longrightarrow> p < tree_size r \<or> p = mnpos \<Longrightarrow>
    \<exists>r'. (\<forall>rest. copy_loop (tree_to_children s) (segments s) pred (node_t p x # rest) r =
                 copy_loop (tree_to_children s) (segments s) pred rest r') \<and>
         grafted s (preorder (parents s) keep x) p r r'"
proof (induction "tree_size s - x" arbitrary: x r p rule: less_induct)
  case less
  let ?loop = "copy_loop (tree_to_children s) (segments s) pred"
  show ?case
  proof (cases "keep x")
    case False
    have "?loop (node_t p x # rest) r = ?loop rest r" for rest
      using False by (subst copy_loop.simps) (simp add: pred)
    moreover have "preorder (parents s) keep x = []"
      using False by (subst preorder.simps) simp
    ultimately show ?thesis using less.prems(2) by (auto intro: grafted_Nil)
  next
    case True
    let ?b = "tree_size r"
    let ?L = "rev (tree_to_children s x)"
    from append4_ok [OF less.prems(3), of "prox (segments s ! x)" "dist (segments s ! x)" "tag (segments s ! x)"]
    obtain r1 where r1:
      "append4 r p (prox (segments s ! x)) (dist (segments s ! x)) (tag (segments s ! x)) = (Inr ?b, r1)"
      "segments r1 = segments r @
          [\<lparr>seg_id = ?b, prox = prox (segments s ! x), dist = dist (segments s ! x),
            tag = tag (segments s ! x)\<rparr>]"
      "parents r1 = parents r @ [p]"
      by auto
    have inv1: "tree_inv r1" by (rule tree_inv_append4 [OF less.prems(2) r1(1)])
    have sz1: "tree_size r1 = Suc ?b" using r1(2) by (simp add: tree_size_def)
    have step: "?loop (node_t p x # rest) r = ?loop (map (node_t ?b) ?L @ rest) r1" for rest
      using True less.prems(1) r1(1)
      by (subst copy_loop.simps) (simp add: pred tree_size_def rev_map)
    have xn: "x \<noteq> mnpos" using less.prems(1) small by simp
    have sib: "siblings (parents s) x ?L"
      using siblings_children [of "parents s" x] by (simp add: children_filter [OF inv xn])
    have "\<exists>r'. (\<forall>rest. ?loop (map (node_t ?b) ?L @ rest) r1 = ?loop rest r') \<and>
         grafted s (concat (map (preorder (parents s) keep) ?L)) ?b r1 r'"
    proof (rule copy_loop_nodes [OF sib _ inv1])
      show "?b < tree_size r1 \<or> ?b = mnpos" using sz1 by simp
    next
      fix c and r2 :: "'p segment_tree"
      assume c: "c \<in> set ?L" and r2: "tree_inv r2" "?b < tree_size r2 \<or> ?b = mnpos"
      have "c < tree_size s" "x < c"
        using c sib inv less.prems(1) by (auto simp: siblings_def tree_inv_def tree_size_def)
      then have "tree_size s - c < tree_size s - x" by simp
      then show "\<exists>r'. (\<forall>rest. ?loop (node_t ?b c # rest) r2 = ?loop rest r') \<and>
             grafted s (preorder (parents s) keep c) ?b r2 r'"
        using \<open>c < tree_size s\<close> r2 by (rule less.hyps)
    qed
    then obtain r' where r':
      "\<And>rest. ?loop (map (node_t ?b) ?L @ rest) r1 = ?loop rest r'"
      "grafted s (concat (map (preorder (parents s) keep) ?L)) ?b r1 r'"
      by auto
    have "grafted s (preorder (parents s) keep x) p r r'"
      by (rule grafted_preorder_Cons [OF inv less.prems(1) small True inv1 r1(2,3) r'(2)])
    moreover have "?loop (node_t p x # rest) r = ?loop rest r'" for rest
      using step r'(1) by simp
    ultimately show ?thesis by blast
  qed
qed

section \<open>What a true result of the equivalence test implies\<close>

lemma match_children_Some:
  "length xs = length ys \<Longrightarrow> match_children xs ys = Some new \<Longrightarrow>
   new = zip (map seg_id xs) (map seg_id ys) \<and> map seg_key xs = map seg_key ys"
proof (induction xs ys arbitrary: new rule: list_induct2)
  case Nil
  then show ?case by simp
next
  case (Cons x xs y ys)
  then show ?case by (auto simp: seg_key_def split: if_splits)
qed

lemma equivalent_loop_pairs_total:
  assumes "\<And>c d rest. (c, d) \<in> set new \<Longrightarrow>
             equivalent_loop sa ca sb cb ((c, d) # rest) = Some False \<or>
             equivalent_loop sa ca sb cb ((c, d) # rest) = equivalent_loop sa ca sb cb rest"
  shows "equivalent_loop sa ca sb cb (new @ rest) = Some False \<or>
         equivalent_loop sa ca sb cb (new @ rest) = equivalent_loop sa ca sb cb rest"
  using assms
proof (induction new)
  case Nil
  then show ?case by simp
next
  case (Cons p new)
  obtain c d where p: "p = (c, d)" by (cases p)
  from Cons.prems [of c d "new @ rest"] p Cons.IH Cons.prems show ?case
    by (metis append_Cons list.set_intros(1) list.set_intros(2))
qed

lemma fetch_children_ids:
  fixes a :: "('p::linorder) segment_tree"
  assumes inv: "tree_inv a"
  shows "set (map seg_id (fetch_children x (segments a) (tree_to_children a))) =
           {c. c < tree_size a \<and> parents a ! c = x}"
    and "distinct (map seg_id (fetch_children x (segments a) (tree_to_children a)))"
    and "\<And>i. i < length (fetch_children x (segments a) (tree_to_children a)) \<Longrightarrow>
           fetch_children x (segments a) (tree_to_children a) ! i =
           segments a ! (seg_id (fetch_children x (segments a) (tree_to_children a) ! i))"
proof -
  let ?C = "tree_to_children a x"
  let ?L = "map (\<lambda>ix. segments a ! ix) ?C"
  let ?as = "fetch_children x (segments a) (tree_to_children a)"
  have id: "seg_id (segments a ! c) = c" if "c < tree_size a" for c
    using inv that by (simp add: tree_inv_def tree_size_def)
  have C: "set ?C = {c. c < tree_size a \<and> parents a ! c = x}" "distinct ?C"
    by (auto simp: tree_to_children_eq)
  have ids: "map seg_id ?L = ?C"
  proof -
    have "map (\<lambda>c. seg_id (segments a ! c)) ?C = map (\<lambda>c. c) ?C"
      by (rule map_cong [OF refl]) (use id C(1) in simp)
    then show ?thesis by (simp add: comp_def)
  qed
  have "set (map seg_id ?as) = seg_id ` set ?L"
    by (simp add: fetch_children_def)
  then show "set (map seg_id ?as) = {c. c < tree_size a \<and> parents a ! c = x}"
    using ids C(1) by (metis set_map)
  have "distinct (map seg_id ?as) \<longleftrightarrow> distinct (map seg_id ?L)"
    unfolding fetch_children_def by (simp only: distinct_map distinct_sort set_sort)
  then show "distinct (map seg_id ?as)" using ids C(2) by simp
  show "?as ! i = segments a ! (seg_id (?as ! i))" if "i < length ?as" for i
  proof -
    have "?as ! i \<in> set ?L" using that by (metis nth_mem fetch_children_def set_sort)
    then obtain c where "c \<in> set ?C" "?as ! i = segments a ! c" by auto
    then show ?thesis using id C(1) by simp
  qed
qed

lemma equivalent_loop_total:
  fixes a b :: "('p::linorder) segment_tree"
  assumes inv_a: "tree_inv a" and small: "tree_size a \<le> mnpos"
  shows "x = mnpos \<or> x < tree_size a \<Longrightarrow>
    equivalent_loop (segments a) (tree_to_children a) (segments b) (tree_to_children b) ((x, y) # rest)
      = Some False \<or>
    equivalent_loop (segments a) (tree_to_children a) (segments b) (tree_to_children b) ((x, y) # rest)
      = equivalent_loop (segments a) (tree_to_children a) (segments b) (tree_to_children b) rest"
proof (induction "if x = mnpos then Suc (tree_size a) else tree_size a - x" arbitrary: x y rest rule: less_induct)
  case less
  let ?loop = "equivalent_loop (segments a) (tree_to_children a) (segments b) (tree_to_children b)"
  let ?as = "fetch_children x (segments a) (tree_to_children a)"
  let ?bs = "fetch_children y (segments b) (tree_to_children b)"
  show ?case
  proof (cases "length ?as \<noteq> length ?bs \<or> match_children ?as ?bs = None")
    case True
    then have "?loop ((x, y) # rest) = Some False"
      by (auto simp: equivalent_loop_Cons)
    then show ?thesis by simp
  next
    case False
    then obtain new where new: "length ?as = length ?bs" "match_children ?as ?bs = Some new"
      by auto
    have step: "?loop ((x, y) # rest) = ?loop (rev new @ rest)"
      using new by (simp add: equivalent_loop_Cons)
    have "?loop (rev new @ rest) = Some False \<or> ?loop (rev new @ rest) = ?loop rest"
    proof (rule equivalent_loop_pairs_total)
      fix c d rest'
      assume "(c, d) \<in> set (rev new)"
      then have "(c, d) \<in> set (zip (map seg_id ?as) (map seg_id ?bs))"
        using match_children_Some [OF new] by simp
      then have "c \<in> set (map seg_id ?as)" by (rule set_zip_leftD)
      then have c: "c < tree_size a" "parents a ! c = x"
        using fetch_children_ids(1) [OF inv_a, of x] by auto
      then have "x = mnpos \<or> x < c"
        using inv_a by (auto simp: tree_inv_def tree_size_def)
      then have "(if c = mnpos then Suc (tree_size a) else tree_size a - c) <
                 (if x = mnpos then Suc (tree_size a) else tree_size a - x)"
        using c(1) small by auto
      then show "?loop ((c, d) # rest') = Some False \<or> ?loop ((c, d) # rest') = ?loop rest'"
        using c(1) by (intro less.hyps) simp_all
    qed
    then show ?thesis using step by simp
  qed
qed

lemma equivalent_total:
  fixes a b :: "('p::linorder) segment_tree"
  assumes "tree_inv a" and "tree_size a \<le> mnpos"
  shows "equivalent a b = Some True \<or> equivalent a b = Some False"
  using equivalent_loop_total [OF assms, where x = mnpos and y = mnpos and rest = "[]" and b = b]
  by (auto simp: equivalent_def equivalent_loop_Nil)

lemma equivalent_loop_matched:
  fixes a b :: "('p::linorder) segment_tree"
  assumes run: "equivalent_loop (segments a) (tree_to_children a) (segments b) (tree_to_children b)
                  todo = Some True"
  shows "(x, y) \<in> set todo \<Longrightarrow> matched a b x y"
proof -
  define P where "P = (\<lambda>(sa :: 'p msegment list) ca (sb :: 'p msegment list) cb
       (todo :: (msize_t \<times> msize_t) list) (r :: bool).
     r \<longrightarrow> sa = segments a \<longrightarrow> ca = tree_to_children a \<longrightarrow> sb = segments b \<longrightarrow>
     cb = tree_to_children b \<longrightarrow> (\<forall>(x, y) \<in> set todo. matched a b x y))"
  have "P (segments a) (tree_to_children a) (segments b) (tree_to_children b) todo True"
  proof (rule equivalent_loop.raw_induct [where P = P, OF _ run])
    fix loop and sa sb :: "'p msegment list" and ca cb todo r
    assume IH: "\<And>sa ca sb cb todo r. loop sa ca sb cb todo = Some r \<Longrightarrow> P sa ca sb cb todo r"
      and body: "(case todo of [] \<Rightarrow> Some True
         | (a_cursor, b_cursor) # rest \<Rightarrow>
             let as = fetch_children a_cursor sa ca; bs = fetch_children b_cursor sb cb
             in if length as \<noteq> length bs then Some False
                else (case match_children as bs of None \<Rightarrow> Some False
                      | Some new \<Rightarrow> loop sa ca sb cb (rev new @ rest))) = Some r"
    show "P sa ca sb cb todo r"
      unfolding P_def
    proof (intro impI)
      assume r: r and eqs: "sa = segments a" "ca = tree_to_children a" "sb = segments b"
        "cb = tree_to_children b"
      show "\<forall>(x, y) \<in> set todo. matched a b x y"
      proof (cases todo)
        case Nil
        then show ?thesis by simp
      next
        case (Cons p rest)
        obtain x0 y0 where p: "p = (x0, y0)" by (cases p)
        let ?as = "fetch_children x0 sa ca" and ?bs = "fetch_children y0 sb cb"
        from body r have len: "length ?as = length ?bs"
          unfolding Cons p by (auto simp: Let_def split: if_splits)
        with body r obtain new where
          new: "match_children ?as ?bs = Some new" "loop sa ca sb cb (rev new @ rest) = Some True"
          unfolding Cons p by (auto simp: Let_def split: option.splits)
        have all: "\<forall>(c, d) \<in> set (rev new @ rest). matched a b c d"
          using IH [OF new(2)] eqs unfolding P_def by simp
        have "matched a b x0 y0"
          by (rule matchedI [where new = new]) (use len new(1) eqs all in auto)
        then show ?thesis using all unfolding Cons p by auto
      qed
    qed
  qed
  then show "(x, y) \<in> set todo \<Longrightarrow> matched a b x y"
    unfolding P_def by auto
qed

lemma equivalent_matched:
  fixes a b :: "('p::linorder) segment_tree"
  assumes "equivalent a b = Some True"
  shows "tree_size b = tree_size a" and "matched a b mnpos mnpos"
proof -
  show sz: "tree_size b = tree_size a"
    using assms by (auto simp: equivalent_def split: if_splits)
  then have "equivalent_loop (segments a) (tree_to_children a) (segments b) (tree_to_children b)
               [(mnpos, mnpos)] = Some True"
    using assms by (simp add: equivalent_def)
  then show "matched a b mnpos mnpos"
    by (rule equivalent_loop_matched) simp
qed

lemma partner_step:
  fixes a b :: "('p::linorder) segment_tree"
  assumes inv_a: "tree_inv a" and inv_b: "tree_inv b"
    and c: "c < tree_size a" and x: "parents a ! c = x"
    and m: "matched a b x y"
  defines "d \<equiv> map seg_id (fetch_children y (segments b) (tree_to_children b)) !
                 index_of c (map seg_id (fetch_children x (segments a) (tree_to_children a)))"
  shows "d < tree_size b" and "parents b ! d = y" and "matched a b c d"
    and "seg_key (segments b ! d) = seg_key (segments a ! c)"
    and "\<And>c'. c' < tree_size a \<Longrightarrow> parents a ! c' = x \<Longrightarrow>
           map seg_id (fetch_children y (segments b) (tree_to_children b)) !
             index_of c' (map seg_id (fetch_children x (segments a) (tree_to_children a))) = d \<Longrightarrow>
           c' = c"
proof -
  let ?as = "fetch_children x (segments a) (tree_to_children a)"
  let ?bs = "fetch_children y (segments b) (tree_to_children b)"
  let ?ia = "map seg_id ?as" and ?ib = "map seg_id ?bs"
  from m obtain new where len: "length ?as = length ?bs"
    and new: "match_children ?as ?bs = Some new"
    and sub: "\<And>c d. (c, d) \<in> set new \<Longrightarrow> matched a b c d"
    by cases (rule that)
  note ms = match_children_Some [OF len new]
  note A = fetch_children_ids [OF inv_a, where x = x]
  note B = fetch_children_ids [OF inv_b, where x = y]
  have mem: "c' \<in> set ?ia" if "c' < tree_size a" "parents a ! c' = x" for c'
    using that A(1) by simp
  have pos: "index_of c' ?ia < length ?as" "?ia ! index_of c' ?ia = c'"
    if "c' < tree_size a" "parents a ! c' = x" for c'
    using index_of_less [OF mem [OF that]] nth_index_of [OF mem [OF that]] by simp_all
  let ?i = "index_of c ?ia"
  have i: "?i < length ?as" "?ia ! ?i = c" using pos [OF c x] by simp_all
  have d: "d = ?ib ! ?i" by (simp add: d_def)
  have ib: "?i < length ?ib" using i(1) len by simp
  have ia: "?i < length ?ia" using i(1) by simp
  have "d \<in> set ?ib" unfolding d by (rule nth_mem [OF ib])
  then have dB: "d \<in> {c. c < tree_size b \<and> parents b ! c = y}" unfolding B(1) .
  show "d < tree_size b" using dB by simp
  show "parents b ! d = y" using dB by simp
  have lz: "?i < length (zip ?ia ?ib)" using ia ib by simp
  have "zip ?ia ?ib ! ?i = (c, d)"
    unfolding nth_zip [OF ia ib] i(2) d ..
  moreover have "zip ?ia ?ib ! ?i \<in> set (zip ?ia ?ib)" by (rule nth_mem [OF lz])
  moreover have "new = zip ?ia ?ib" using ms by (rule conjunct1)
  ultimately have "(c, d) \<in> set new" by simp
  then show "matched a b c d" by (rule sub)
  have ida: "seg_id (?as ! ?i) = c" using i(2) nth_map [OF i(1), of seg_id] by simp
  have bl: "?i < length ?bs" using i(1) len by simp
  have idb: "seg_id (?bs ! ?i) = d" unfolding d using nth_map [OF bl, of seg_id] by simp
  have sa: "?as ! ?i = segments a ! c" using A(3) [OF i(1)] unfolding ida .
  have sb: "?bs ! ?i = segments b ! d" using B(3) [OF bl] unfolding idb .
  have "map seg_key ?as ! ?i = map seg_key ?bs ! ?i"
    using ms by (simp only:)
  then have "seg_key (?as ! ?i) = seg_key (?bs ! ?i)"
    unfolding nth_map [OF i(1)] nth_map [OF bl] .
  then show "seg_key (segments b ! d) = seg_key (segments a ! c)"
    unfolding sa sb by (rule sym)
  show "c' = c" if c': "c' < tree_size a" "parents a ! c' = x" "?ib ! index_of c' ?ia = d" for c'
  proof -
    let ?j = "index_of c' ?ia"
    have j: "?j < length ?ib" "?ia ! ?j = c'" using pos [OF c'(1,2)] len by simp_all
    have e: "?ib ! ?j = ?ib ! ?i" unfolding c'(3) d ..
    have ji: "?j = ?i" by (rule iffD1 [OF nth_eq_iff_index_eq [OF B(2) j(1) ib] e])
    have "c' = ?ia ! ?j" by (rule j(2) [symmetric])
    also have "\<dots> = ?ia ! ?i" by (rule arg_cong [OF ji])
    also have "\<dots> = c" by (rule i(2))
    finally show ?thesis .
  qed
qed

lemma partner_unfold:
  fixes a b :: "('p::linorder) segment_tree"
  assumes "tree_inv a" and "tree_size a \<le> mnpos" and "c < tree_size a"
  shows "partner a b c =
     map seg_id (fetch_children (if parents a ! c = mnpos then mnpos else partner a b (parents a ! c))
        (segments b) (tree_to_children b)) !
       index_of c (map seg_id (fetch_children (parents a ! c) (segments a) (tree_to_children a)))"
proof -
  have "parents a ! c = mnpos \<or> parents a ! c < c"
    using assms(1,3) by (simp add: tree_inv_def tree_size_def)
  moreover have "\<not> mnpos < c" using assms(2,3) by simp
  ultimately show ?thesis by (subst partner.simps) (auto simp: Let_def)
qed

lemma partner_props:
  fixes a b :: "('p::linorder) segment_tree"
  assumes inv_a: "tree_inv a" and inv_b: "tree_inv b" and small: "tree_size a \<le> mnpos"
    and root: "matched a b mnpos mnpos"
  shows "c < tree_size a \<Longrightarrow>
     partner a b c < tree_size b \<and> matched a b c (partner a b c) \<and>
     seg_key (segments b ! partner a b c) = seg_key (segments a ! c) \<and>
     parents b ! partner a b c =
       (if parents a ! c = mnpos then mnpos else partner a b (parents a ! c))"
proof (induction c rule: less_induct)
  case (less c)
  let ?x = "parents a ! c"
  let ?y = "if ?x = mnpos then mnpos else partner a b ?x"
  have par: "?x = mnpos \<or> ?x < c"
    using inv_a less.prems by (simp add: tree_inv_def tree_size_def)
  have m: "matched a b ?x ?y"
  proof (cases "?x = mnpos")
    case True
    then show ?thesis using root by simp
  next
    case False
    then have "?x < c" using par by simp
    moreover from this have "?x < tree_size a" using less.prems by simp
    ultimately show ?thesis using less.IH False by simp
  qed
  note st = partner_step [OF inv_a inv_b less.prems refl m]
  show ?case
    unfolding partner_unfold [OF inv_a small less.prems, of b]
    using st(1-4) by simp
qed

lemma partner_inj:
  fixes a b :: "('p::linorder) segment_tree"
  assumes inv_a: "tree_inv a" and inv_b: "tree_inv b" and small: "tree_size a \<le> mnpos"
    and sz: "tree_size b = tree_size a" and root: "matched a b mnpos mnpos"
  shows "c < tree_size a \<Longrightarrow> c' < tree_size a \<Longrightarrow> partner a b c = partner a b c' \<Longrightarrow> c = c'"
proof (induction c arbitrary: c' rule: less_induct)
  case (less c)
  let ?F = "\<lambda>x. if x = mnpos then mnpos else partner a b x"
  let ?x = "parents a ! c" and ?x' = "parents a ! c'"
  note pc = partner_props [OF inv_a inv_b small root less.prems(1)]
  note pc' = partner_props [OF inv_a inv_b small root less.prems(2)]
  have par: "?x = mnpos \<or> ?x < c" "?x' = mnpos \<or> ?x' < c'"
    using inv_a less.prems by (simp_all add: tree_inv_def tree_size_def)
  have lt: "partner a b z < mnpos" if "z < tree_size a" for z
    using partner_props [OF inv_a inv_b small root that] sz small by simp
  have F: "?F ?x = ?F ?x'" using pc pc' less.prems(3) by simp
  have same: "?x' = ?x"
  proof (cases "?x = mnpos")
    case True
    show ?thesis
    proof (rule ccontr)
      assume ne: "?x' \<noteq> ?x"
      then have "?x' < tree_size a" using par(2) True less.prems(2) by auto
      from lt [OF this] F True ne show False by simp
    qed
  next
    case False
    then have x: "?x < c" "?x < tree_size a" using par(1) less.prems(1) by auto
    have "?x' \<noteq> mnpos" using F False lt [OF x(2)] by auto
    then have x': "?x' < tree_size a" using par(2) less.prems(2) by auto
    have "partner a b ?x = partner a b ?x'" using F False \<open>?x' \<noteq> mnpos\<close> by simp
    from less.IH [OF x(1) x(2) x' this] show ?thesis by simp
  qed
  have m: "matched a b ?x (?F ?x)"
  proof (cases "?x = mnpos")
    case True
    then show ?thesis using root by simp
  next
    case False
    then have "?x < tree_size a" using par(1) less.prems(1) by auto
    then show ?thesis using partner_props [OF inv_a inv_b small root] False by simp
  qed
  have "c' = c"
  proof (rule partner_step(5) [OF inv_a inv_b less.prems(1) refl m less.prems(2) same])
    show "map seg_id (fetch_children (?F ?x) (segments b) (tree_to_children b)) !
            index_of c' (map seg_id (fetch_children ?x (segments a) (tree_to_children a))) =
          map seg_id (fetch_children (?F ?x) (segments b) (tree_to_children b)) !
            index_of c (map seg_id (fetch_children ?x (segments a) (tree_to_children a)))"
      using less.prems(3) [symmetric]
      unfolding partner_unfold [OF inv_a small less.prems(1), of b]
        partner_unfold [OF inv_a small less.prems(2), of b] same .
  qed
  then show ?case by simp
qed

lemma equivalent_sound:
  fixes a b :: "('p::linorder) segment_tree"
  assumes inv_a: "tree_inv a" and inv_b: "tree_inv b" and small: "tree_size a \<le> mnpos"
    and eq: "equivalent a b = Some True"
  shows "reordering (map (partner a b) [0..<tree_size a]) a b"
proof -
  note m = equivalent_matched [OF eq]
  note p = partner_props [OF inv_a inv_b small m(2)]
  have par: "parents a ! c < tree_size a" if "c < tree_size a" "parents a ! c \<noteq> mnpos" for c
    using inv_a that unfolding tree_inv_def tree_size_def by (metis less_trans)
  have "inj_on (partner a b) {0..<tree_size a}"
    using partner_inj [OF inv_a inv_b small m] by (auto simp: inj_on_def)
  then have "distinct (map (partner a b) [0..<tree_size a])"
    by (simp add: distinct_map)
  then show ?thesis
    unfolding reordering_def using m(1) p par by simp
qed

lemma fork_tree_retagged_eq:
  "fork_tree_retagged = \<lparr>segments = [\<lparr>seg_id = 0, prox = 0, dist = 1, tag = 0\<rparr>,
                             \<lparr>seg_id = 1, prox = 1, dist = 2, tag = 0\<rparr>,
                             \<lparr>seg_id = 2, prox = 1, dist = 3, tag = 0\<rparr>,
                             \<lparr>seg_id = 3, prox = 2, dist = 4, tag = 7\<rparr>],
                 parents = [mnpos, 0, 0, 1],
                 seg_children = [child_prop 2, child_prop 1, child_prop 0, child_prop 0]\<rparr>"
  by (simp add: fork_tree_retagged_def build_def append4_def empty_tree_def tree_size_def
        increment_def mnpos_def)

text \<open>
  C2. As stated the claim fails: two siblings of one geometry and tag are paired in the order
  of their indices, so when only one of them has a child, the tree and its reordered copy
  are judged different. What holds on trees that satisfy the class invariant: \<open>equivalent\<close>
  returns true or false; it returns true only when the second tree holds the segments of the
  first, each with exactly its proximal point, distal point and tag and under the image of
  its parent, in some append order, and false for every other tree; and when the segments
  under one parent differ in geometry or tag, it returns true for every such tree, whatever
  the order in which siblings were appended.
\<close>

theorem equivalent_reordered:
  fixes a b :: "('p::linorder) segment_tree"
  assumes "tree_inv a" and "tree_inv b" and "tree_size a \<le> mnpos"
  shows "(equivalent a b = Some True \<or> equivalent a b = Some False) \<and>
         (equivalent a b = Some True \<longrightarrow> (\<exists>f. reordering f a b)) \<and>
         ((\<nexists>f. reordering f a b) \<longrightarrow> equivalent a b = Some False) \<and>
         (distinct_siblings a \<longrightarrow> (\<forall>f. reordering f a b \<longrightarrow> equivalent a b = Some True))"
proof -
  have total: "equivalent a b = Some True \<or> equivalent a b = Some False"
    by (rule equivalent_total [OF assms(1,3)])
  have sound: "\<exists>f. reordering f a b" if "equivalent a b = Some True"
    using equivalent_sound [OF assms that] by blast
  have complete: "equivalent a b = Some True" if "distinct_siblings a" "reordering f a b" for f
    by (rule equivalent_reordering [OF assms that(2,1)])
  show ?thesis using total sound complete by blast
qed

theorem equivalent_reordered_witness:
  "tree_inv fork_tree \<and> tree_inv fork_tree_reordered \<and> tree_inv fork_tree_retagged \<and>
   tree_size fork_tree \<le> mnpos \<and>
   reordering [0, 2, 1, 3] fork_tree fork_tree_reordered \<and> distinct_siblings fork_tree \<and>
   equivalent fork_tree fork_tree_reordered = Some True \<and>
   equivalent fork_tree fork_tree_retagged = Some False \<and>
   (\<nexists>f. reordering f fork_tree fork_tree_retagged)"
proof -
  have i: "tree_inv fork_tree" "tree_inv fork_tree_reordered" "tree_inv fork_tree_retagged"
    unfolding fork_tree_def fork_tree_reordered_def fork_tree_retagged_def
    by (rule tree_inv_build)+
  have s: "tree_size fork_tree \<le> mnpos"
    by (simp add: fork_tree_eq tree_size_def mnpos_def)
  have r: "reordering [0, 2, 1, 3] fork_tree fork_tree_reordered"
    by (simp add: reordering_def all_less_list fork_tree_eq fork_tree_reordered_eq tree_size_def
        upt_0_4 seg_key_def mnpos_def)
  have d: "distinct_siblings fork_tree"
    by (simp add: distinct_siblings_def all_less_list fork_tree_eq tree_size_def
        upt_0_4 seg_key_def mnpos_def)
  have segs: "segments fork_tree = [\<lparr>seg_id = 0, prox = 0, dist = 1, tag = 0\<rparr>,
                             \<lparr>seg_id = 1, prox = 1, dist = 2, tag = 0\<rparr>,
                             \<lparr>seg_id = 2, prox = 1, dist = 3, tag = 0\<rparr>,
                             \<lparr>seg_id = 3, prox = 2, dist = 4, tag = 0\<rparr>]"
    "segments fork_tree_retagged = [\<lparr>seg_id = 0, prox = 0, dist = 1, tag = 0\<rparr>,
                             \<lparr>seg_id = 1, prox = 1, dist = 2, tag = 0\<rparr>,
                             \<lparr>seg_id = 2, prox = 1, dist = 3, tag = 0\<rparr>,
                             \<lparr>seg_id = 3, prox = 2, dist = 4, tag = 7\<rparr>]"
    "tree_size fork_tree = 4" "tree_size fork_tree_retagged = 4"
    by (simp_all add: fork_tree_eq fork_tree_retagged_eq tree_size_def)
  have ch: "tree_to_children fork_tree x =
              (if x = mnpos then [0] else if x = 0 then [1, 2] else if x = 1 then [3] else [])"
    "tree_to_children fork_tree_retagged x =
              (if x = mnpos then [0] else if x = 0 then [1, 2] else if x = 1 then [3] else [])"
    for x
    by (simp_all add: tree_to_children_eq fork_tree_eq fork_tree_retagged_eq tree_size_def upt_0_4
        mnpos_def)
  have f: "equivalent fork_tree fork_tree_retagged = Some False"
    by (simp add: equivalent_def equivalent_loop_Cons equivalent_loop_Nil fetch_children_def
        ch segs seg_key_def mnpos_def)
  show ?thesis
    using equivalent_reordered [OF i(1,2) s] equivalent_reordered [OF i(1,3) s] i s r d f
    by auto
qed

theorem equivalent_reordered_counterexample:
  "tree_inv twin_tree \<and> tree_inv twin_tree_reordered \<and>
   reordering [0, 2, 1, 3] twin_tree twin_tree_reordered \<and>
   equivalent twin_tree twin_tree_reordered = Some False"
proof -
  have i: "tree_inv twin_tree" "tree_inv twin_tree_reordered"
    unfolding twin_tree_def twin_tree_reordered_def by (rule tree_inv_build)+
  have r: "reordering [0, 2, 1, 3] twin_tree twin_tree_reordered"
    by (simp add: reordering_def all_less_list twin_tree_eq twin_tree_reordered_eq tree_size_def
        upt_0_4 seg_key_def mnpos_def)
  have e: "equivalent twin_tree twin_tree_reordered = Some False"
    by (simp add: equivalent_def equivalent_loop_Cons equivalent_loop_Nil fetch_children_def
        twin_children twin_reordered_children twin_segments seg_key_def mnpos_def)
  show ?thesis using i r e by simp
qed

section \<open>Splitting and joining\<close>

lemma copy_subtree_if_grafted:
  fixes s :: "'p segment_tree"
  assumes "tree_inv s" and "tree_size s \<le> mnpos" and "\<And>nd. pred nd = keep (node_id nd)"
    and "x < tree_size s" and "tree_inv r" and "p < tree_size r \<or> p = mnpos"
  shows "\<exists>r'. copy_subtree_if s (node_t p x) pred r = Some (Inr r') \<and>
              grafted s (preorder (parents s) keep x) p r r'"
proof -
  from copy_loop_node [where pred = pred and keep = keep, OF assms(1,2,3,4,5,6)]
  obtain r' where r':
    "\<And>rest. copy_loop (tree_to_children s) (segments s) pred (node_t p x # rest) r =
            copy_loop (tree_to_children s) (segments s) pred rest r'"
    "grafted s (preorder (parents s) keep x) p r r'"
    by blast
  have "copy_subtree_if s (node_t p x) pred r = Some (Inr r')"
    unfolding copy_subtree_if_def r'(1) by (rule copy_loop_Nil)
  then show ?thesis using r'(2) by blast
qed

lemma copy_roots_grafted:
  fixes s :: "'p segment_tree"
  assumes inv: "tree_inv s" and small: "tree_size s \<le> mnpos"
  shows "siblings (parents s) mnpos L \<Longrightarrow> tree_inv r \<Longrightarrow>
     \<exists>r'. copy_roots s at L r = Some (Inr r') \<and>
          grafted s (concat (map (preorder (parents s) (\<lambda>y. y \<noteq> at)) L)) mnpos r r'"
proof (induction L arbitrary: r)
  case Nil
  then show ?case by (simp add: grafted_Nil)
next
  case (Cons c L)
  have c: "c < tree_size s"
    using Cons.prems(1) inv by (simp add: siblings_Cons tree_inv_def tree_size_def)
  have sibL: "siblings (parents s) mnpos L" using Cons.prems(1) by (simp add: siblings_Cons)
  from copy_subtree_if_grafted [where pred = "\<lambda>node. node_id node \<noteq> at"
      and keep = "\<lambda>y. y \<noteq> at" and p = mnpos, OF inv small _ c Cons.prems(2)]
  obtain r2 where r2:
    "copy_subtree_if s (node_t mnpos c) (\<lambda>node. node_id node \<noteq> at) r = Some (Inr r2)"
    "grafted s (preorder (parents s) (\<lambda>y. y \<noteq> at) c) mnpos r r2"
    by auto
  have inv2: "tree_inv r2" using r2(2) by (simp add: grafted_def)
  from Cons.IH [OF sibL inv2]
  obtain r3 where r3: "copy_roots s at L r2 = Some (Inr r3)"
    "grafted s (concat (map (preorder (parents s) (\<lambda>y. y \<noteq> at)) L)) mnpos r2 r3"
    by auto
  have "grafted s (concat (map (preorder (parents s) (\<lambda>y. y \<noteq> at)) (c # L))) mnpos r r3"
    by (rule grafted_forest_append [OF Cons.prems(1) r2(2) r3(2)])
  moreover have "copy_roots s at (c # L) r = Some (Inr r3)"
    using r2(1) r3(1) by simp
  ultimately show ?case by blast
qed

lemma siblings_roots:
  assumes "tree_inv s" and "tree_size s \<le> mnpos"
  shows "siblings (parents s) mnpos (filter (\<lambda>i. parents s ! i = mnpos) [0..<tree_size s])"
  using assms by (auto simp: siblings_def tree_inv_def tree_size_def)

lemma split_at_grafted:
  fixes s :: "'p segment_tree"
  assumes inv: "tree_inv s" and small: "tree_size s \<le> mnpos" and k: "k < tree_size s"
  shows "\<exists>pre post. split_at s k = Some (Inr (pre, post)) \<and>
           grafted s (pre_order s k) mnpos empty_tree pre \<and>
           grafted s (preorder (parents s) (\<lambda>_. True) k) mnpos empty_tree post"
proof -
  from copy_subtree_if_grafted [where pred = yes and keep = "\<lambda>_. True" and p = mnpos,
      OF inv small _ k tree_inv_empty]
  obtain post where post: "copy_subtree_if s (node_t mnpos k) yes empty_tree = Some (Inr post)"
    "grafted s (preorder (parents s) (\<lambda>_. True) k) mnpos empty_tree post"
    by (auto simp: yes_def)
  have roots: "filter (\<lambda>i. is_root s i = Inr True) [0..<length (segments s)] =
               filter (\<lambda>i. parents s ! i = mnpos) [0..<tree_size s]"
    by (auto simp: is_root_def tree_size_def intro!: filter_cong)
  from copy_roots_grafted [OF inv small siblings_roots [OF inv small] tree_inv_empty, of k]
  obtain pre where pre:
    "copy_roots s k (filter (\<lambda>i. parents s ! i = mnpos) [0..<tree_size s]) empty_tree = Some (Inr pre)"
    "grafted s (pre_order s k) mnpos empty_tree pre"
    by (auto simp: pre_order_def)
  have "split_at s k = Some (Inr (pre, post))"
    using k small post(1) pre(1) by (simp add: split_at_def roots)
  then show ?thesis using pre(2) post(2) by blast
qed

lemma pre_order_mem:
  assumes inv: "tree_inv s" and small: "tree_size s \<le> mnpos" and y: "y \<in> set (pre_order s k)"
  shows "y < tree_size s" and "y \<noteq> k"
    and "parents s ! y = mnpos \<or> (parents s ! y \<in> set (pre_order s k) \<and> parents s ! y < y)"
proof -
  have len: "length (parents s) = tree_size s"
    using inv by (simp add: tree_inv_def tree_size_def)
  note sib = siblings_roots [OF inv small]
  note m = forest_mem [OF sib y [unfolded pre_order_def]]
  show "y < tree_size s" using m(1) len by simp
  show "y \<noteq> k" using m(3) by simp
  show "parents s ! y = mnpos \<or> (parents s ! y \<in> set (pre_order s k) \<and> parents s ! y < y)"
    using m(6) by (simp add: pre_order_def)
qed

lemma pre_order_child:
  assumes q: "q \<in> set (pre_order s k)" and i: "parents s ! i = q" "q < i" "i < length (parents s)" "i \<noteq> k"
  shows "i \<in> set (pre_order s k)"
proof -
  from q obtain r where r: "r \<in> set (filter (\<lambda>i. parents s ! i = mnpos) [0..<tree_size s])"
    "q \<in> set (preorder (parents s) (\<lambda>y. y \<noteq> k) r)"
    by (auto simp: pre_order_def)
  have "i \<in> set (preorder (parents s) (\<lambda>y. y \<noteq> k) r)"
    by (rule preorder_child [OF r(2) i(1,2,3)]) (rule i(4))
  then show ?thesis using r(1) by (auto simp: pre_order_def)
qed

lemma split_covers:
  assumes inv: "tree_inv s" and small: "tree_size s \<le> mnpos" and k: "k < tree_size s"
  shows "i < tree_size s \<Longrightarrow>
         i \<in> set (pre_order s k) \<or> i \<in> set (preorder (parents s) (\<lambda>_. True) k)"
proof (induction i rule: less_induct)
  case (less i)
  have len: "length (parents s) = tree_size s"
    using inv by (simp add: tree_inv_def tree_size_def)
  have par: "parents s ! i = mnpos \<or> parents s ! i < i"
    using inv less.prems by (simp add: tree_inv_def tree_size_def)
  show ?case
  proof (cases "i = k")
    case True
    then show ?thesis by (simp add: preorder_self)
  next
    case False
    show ?thesis
    proof (cases "parents s ! i = mnpos")
      case True
      then have "i \<in> set (filter (\<lambda>i. parents s ! i = mnpos) [0..<tree_size s])"
        using less.prems by simp
      moreover have "i \<in> set (preorder (parents s) (\<lambda>y. y \<noteq> k) i)"
        using False by (simp add: preorder_self)
      ultimately show ?thesis unfolding pre_order_def by auto
    next
      case root: False
      let ?q = "parents s ! i"
      have q: "?q < i" using par root by simp
      then have "?q < tree_size s" using less.prems by simp
      from less.IH [OF q this] show ?thesis
      proof
        assume "?q \<in> set (pre_order s k)"
        then have "i \<in> set (pre_order s k)"
          by (rule pre_order_child) (use q less.prems len False in simp_all)
        then show ?thesis by simp
      next
        assume "?q \<in> set (preorder (parents s) (\<lambda>_. True) k)"
        then have "i \<in> set (preorder (parents s) (\<lambda>_. True) k)"
          by (rule preorder_child) (use q less.prems len in simp_all)
        then show ?thesis by simp
      qed
    qed
  qed
qed

lemma split_disjoint:
  assumes inv: "tree_inv s" and small: "tree_size s \<le> mnpos" and k: "k < tree_size s"
  shows "y \<in> set (pre_order s k) \<Longrightarrow> y \<notin> set (preorder (parents s) (\<lambda>_. True) k)"
proof (induction y rule: less_induct)
  case (less y)
  note m = pre_order_mem [OF inv small less.prems]
  show ?case
  proof
    assume post: "y \<in> set (preorder (parents s) (\<lambda>_. True) k)"
    from preorder_closed [OF post m(2)]
    have up: "parents s ! y \<in> set (preorder (parents s) (\<lambda>_. True) k)" "parents s ! y < y"
      by simp_all
    have "parents s ! y \<noteq> mnpos" using up(2) m(1) small by simp
    then have "parents s ! y \<in> set (pre_order s k)" using m(3) by simp
    from less.IH [OF up(2) this] up(1) show False by simp
  qed
qed

lemma post_order_mem:
  assumes inv: "tree_inv s" and k: "k < tree_size s"
    and y: "y \<in> set (preorder (parents s) (\<lambda>_. True) k)"
  shows "y < tree_size s" and "k \<le> y"
  using preorder_bounds [OF y] k inv by (auto simp: tree_inv_def tree_size_def)

lemma split_lengths:
  assumes inv: "tree_inv s" and small: "tree_size s \<le> mnpos" and k: "k < tree_size s"
  shows "length (pre_order s k) + length (preorder (parents s) (\<lambda>_. True) k) = tree_size s"
proof -
  let ?A = "pre_order s k" and ?B = "preorder (parents s) (\<lambda>_. True) k"
  have dA: "distinct ?A"
    unfolding pre_order_def by (rule forest_distinct' [OF siblings_roots [OF inv small]])
  have dB: "distinct ?B" by (rule preorder_distinct)
  have disj: "set ?A \<inter> set ?B = {}"
    using split_disjoint [OF inv small k] by auto
  have "set ?A \<union> set ?B = {0..<tree_size s}"
  proof (intro set_eqI iffI)
    fix y assume "y \<in> set ?A \<union> set ?B"
    then show "y \<in> {0..<tree_size s}"
      using pre_order_mem(1) [OF inv small, of y k] post_order_mem(1) [OF inv k, of y] by auto
  next
    fix y assume "y \<in> {0..<tree_size s}"
    then show "y \<in> set ?A \<union> set ?B"
      using split_covers [OF inv small k, of y] by auto
  qed
  then have "card (set ?A \<union> set ?B) = tree_size s" by simp
  then show ?thesis
    using dA dB disj by (simp add: card_Un_disjoint distinct_card)
qed

text \<open>The copy of a subtree is a tree with the single root 0, and all of it hangs under 0.\<close>

lemma post_covers:
  assumes inv: "tree_inv post" and m: "0 < tree_size post"
    and nonroot: "\<And>i. 0 < i \<Longrightarrow> i < tree_size post \<Longrightarrow> parents post ! i \<noteq> mnpos"
  shows "i < tree_size post \<Longrightarrow> i \<in> set (preorder (parents post) (\<lambda>_. True) 0)"
proof (induction i rule: less_induct)
  case (less i)
  have len: "length (parents post) = tree_size post"
    using inv by (simp add: tree_inv_def tree_size_def)
  show ?case
  proof (cases "i = 0")
    case True
    then show ?thesis by (simp add: preorder_self)
  next
    case False
    then have "parents post ! i \<noteq> mnpos" using nonroot less.prems by simp
    then have q: "parents post ! i < i"
      using inv less.prems by (auto simp: tree_inv_def tree_size_def)
    then have "parents post ! i < tree_size post" using less.prems by simp
    from less.IH [OF q this] show ?thesis
      by (rule preorder_child) (use q less.prems len in simp_all)
  qed
qed

lemma post_order_perm:
  assumes inv: "tree_inv post" and m: "0 < tree_size post"
    and nonroot: "\<And>i. 0 < i \<Longrightarrow> i < tree_size post \<Longrightarrow> parents post ! i \<noteq> mnpos"
  shows "set (preorder (parents post) (\<lambda>_. True) 0) = {0..<tree_size post}"
    and "length (preorder (parents post) (\<lambda>_. True) 0) = tree_size post"
proof -
  let ?C = "preorder (parents post) (\<lambda>_. True) 0"
  have len: "length (parents post) = tree_size post"
    using inv by (simp add: tree_inv_def tree_size_def)
  show s: "set ?C = {0..<tree_size post}"
  proof (intro set_eqI iffI)
    fix i assume "i \<in> set ?C"
    from preorder_bounds [OF this] show "i \<in> {0..<tree_size post}" using m len by auto
  next
    fix i assume "i \<in> {0..<tree_size post}"
    then show "i \<in> set ?C" using post_covers [OF inv m nonroot, of i] by simp
  qed
  have "card (set ?C) = length ?C" by (rule distinct_card [OF preorder_distinct])
  then show "length ?C = tree_size post" using s by simp
qed

lemma post_nonroot:
  assumes inv: "tree_inv s" and small: "tree_size s \<le> mnpos" and k: "k < tree_size s"
    and g: "grafted s (preorder (parents s) (\<lambda>_. True) k) mnpos empty_tree post"
  shows "tree_size post = length (preorder (parents s) (\<lambda>_. True) k)"
    and "0 < tree_size post"
    and "tree_size post \<le> mnpos"
    and "parents post = map (dest_parent (parents s) (preorder (parents s) (\<lambda>_. True) k) 0 mnpos)
                            (preorder (parents s) (\<lambda>_. True) k)"
    and "index_of k (preorder (parents s) (\<lambda>_. True) k) = 0"
    and "parents s ! k \<notin> set (preorder (parents s) (\<lambda>_. True) k)"
    and "\<And>i. 0 < i \<Longrightarrow> i < tree_size post \<Longrightarrow> parents post ! i \<noteq> mnpos"
proof -
  let ?ps = "parents s"
  let ?B = "preorder ?ps (\<lambda>_. True) k"
  have sz: "tree_size post = length ?B"
    using grafted_size [OF g] by (simp add: empty_tree_def tree_size_def)
  show "tree_size post = length ?B" by (rule sz)
  have "\<exists>t. ?B = k # t" by (subst preorder.simps) simp
  then obtain t where hd: "?B = k # t" by blast
  have B0: "?B ! 0 = k" by (simp add: hd)
  show pos: "0 < tree_size post" by (simp add: sz hd)
  show "index_of k ?B = 0" by (simp add: hd)
  have dB: "distinct ?B" by (rule preorder_distinct)
  have sub: "set ?B \<subseteq> {0..<tree_size s}"
    using post_order_mem(1) [OF inv k] by auto
  have "length ?B = card (set ?B)" using dB by (simp add: distinct_card)
  also have "\<dots> \<le> card {0..<tree_size s}" by (rule card_mono [OF _ sub]) simp
  finally have le: "length ?B \<le> tree_size s" by simp
  then show "tree_size post \<le> mnpos" using sz small by simp
  show pps: "parents post = map (dest_parent ?ps ?B 0 mnpos) ?B"
    using g by (simp add: grafted_def empty_tree_def tree_size_def)
  show notin: "?ps ! k \<notin> set ?B"
  proof
    assume "?ps ! k \<in> set ?B"
    then have "k \<le> ?ps ! k" "?ps ! k < tree_size s"
      using post_order_mem [OF inv k] by simp_all
    then show False using inv k small unfolding tree_inv_def tree_size_def
      by (metis leD)
  qed
  show "parents post ! i \<noteq> mnpos" if i: "0 < i" "i < tree_size post" for i
  proof -
    have iB: "i < length ?B" using i sz by simp
    have "?B ! i \<noteq> k" using dB B0 i iB by (metis nth_eq_iff_index_eq pos sz less_numeral_extra(3))
    moreover have "?B ! i \<in> set ?B" using iB by simp
    ultimately have up: "?ps ! (?B ! i) \<in> set ?B" using preorder_closed by blast
    then have "index_of (?ps ! (?B ! i)) ?B < length ?B" by (rule index_of_less)
    then have "dest_parent ?ps ?B 0 mnpos (?B ! i) < mnpos"
      using up le small by (simp add: dest_parent_def)
    then show ?thesis using iB by (simp add: pps)
  qed
qed

lemma relabel_reordering:
  fixes s J post :: "'p segment_tree"
  assumes small: "tree_size s \<le> mnpos"
    and dA: "distinct A" and dB: "distinct B"
    and cover: "set A \<union> set B = {0..<tree_size s}" and disj: "set A \<inter> set B = {}"
    and dC: "distinct C" and sC: "set C = {0..<length B}"
    and keysJ: "map seg_key (segments J) =
       map (\<lambda>y. seg_key (segments s ! y)) A @ map (\<lambda>i. seg_key (segments post ! i)) C"
    and keysP: "map seg_key (segments post) = map (\<lambda>y. seg_key (segments s ! y)) B"
    and parsJ: "parents J =
       map (dest_parent (parents s) A 0 mnpos) A @ map (dest_parent pps C (length A) a) C"
    and pps: "pps = map (dest_parent (parents s) B 0 mnpos) B"
    and closedA: "\<And>y. y \<in> set A \<Longrightarrow> parents s ! y = mnpos \<or> parents s ! y \<in> set A"
    and closedB: "\<And>y. y \<in> set B \<Longrightarrow> y \<noteq> k \<Longrightarrow> parents s ! y \<in> set B"
    and kB: "parents s ! k \<notin> set B"
    and kA: "parents s ! k \<noteq> mnpos \<Longrightarrow> parents s ! k \<in> set A"
    and a: "a = (if parents s ! k = mnpos then mnpos else index_of (parents s ! k) A)"
  shows "reordering
           (map (\<lambda>y. if y \<in> set A then index_of y A else length A + index_of (index_of y B) C)
                [0..<tree_size s]) s J"
proof -
  let ?n = "tree_size s"
  let ?ps = "parents s"
  define f where "f = (\<lambda>y. if y \<in> set A then index_of y A else length A + index_of (index_of y B) C)"
  have lenC: "length C = length B"
    using distinct_card [OF dC] sC by simp
  have lenAB: "length A + length B = ?n"
  proof -
    have "card (set A \<union> set B) = ?n" using cover by simp
    then show ?thesis using dA dB disj by (simp add: card_Un_disjoint distinct_card)
  qed
  have szJ: "tree_size J = ?n"
    using arg_cong [OF keysJ, of length] lenC lenAB by (simp add: tree_size_def)
  have lenPJ: "length (parents J) = ?n"
    using arg_cong [OF parsJ, of length] lenC lenAB by simp
  have inB: "y \<in> set B" if "y < ?n" "y \<notin> set A" for y
    using that cover by auto
  have lt: "y < ?n" if "y \<in> set A \<or> y \<in> set B" for y
    using that cover by auto
  have no_npos: "mnpos \<notin> set A" "mnpos \<notin> set C"
  proof -
    show "mnpos \<notin> set A" using lt [of mnpos] small by auto
    show "mnpos \<notin> set C" using sC lenAB small by auto
  qed
  text \<open>positions in the post tree and in the joined tree\<close>
  have ib: "index_of y B < length B" "B ! index_of y B = y" "index_of y B \<in> set C" if "y \<in> set B" for y
    using that sC by (simp_all add: index_of_less nth_index_of)
  have jc: "index_of (index_of y B) C < length C" "C ! index_of (index_of y B) C = index_of y B"
    if "y \<in> set B" for y
    using ib(3) [OF that] by (simp_all add: index_of_less nth_index_of)
  have fA: "f y = index_of y A" "f y < length A" "A ! f y = y" if "y \<in> set A" for y
    using that by (simp_all add: f_def index_of_less nth_index_of)
  have fB: "f y = length A + index_of (index_of y B) C" "length A \<le> f y" "f y < ?n"
    if "y \<in> set B" for y
  proof -
    have "y \<notin> set A" using that disj by auto
    then show eq: "f y = length A + index_of (index_of y B) C" by (simp add: f_def)
    show "length A \<le> f y" unfolding eq by simp
    show "f y < ?n" unfolding eq using jc(1) [OF that] lenC lenAB by simp
  qed
  have bound: "f y < ?n" if "y < ?n" for y
  proof (cases "y \<in> set A")
    case True
    then show ?thesis using fA(2) [OF True] lenAB by simp
  next
    case False
    then show ?thesis using fB(3) [OF inB [OF that False]] by simp
  qed
  have inj: "y = z" if "y < ?n" "z < ?n" "f y = f z" for y z
  proof (cases "y \<in> set A")
    case yA: True
    show ?thesis
    proof (cases "z \<in> set A")
      case True
      then show ?thesis using yA that(3) fA(1) by (auto intro: index_of_inj)
    next
      case False
      then show ?thesis using fA(2) [OF yA] fB(2) [OF inB [OF that(2) False]] that(3) by simp
    qed
  next
    case yA: False
    note yB = inB [OF that(1) yA]
    show ?thesis
    proof (cases "z \<in> set A")
      case True
      then show ?thesis using fA(2) [OF True] fB(2) [OF yB] that(3) by simp
    next
      case False
      note zB = inB [OF that(2) False]
      have "index_of (index_of y B) C = index_of (index_of z B) C"
        using that(3) fB(1) [OF yB] fB(1) [OF zB] by simp
      then have "index_of y B = index_of z B"
        using ib(3) [OF yB] ib(3) [OF zB] by (auto intro: index_of_inj)
      then show ?thesis using yB zB by (auto intro: index_of_inj)
    qed
  qed
  have keyJ: "seg_key (segments J ! f y) = seg_key (segments s ! y)" if y: "y < ?n" for y
  proof -
    have "seg_key (segments J ! f y) = map seg_key (segments J) ! f y"
      using bound [OF y] szJ by (simp add: tree_size_def)
    also have "\<dots> = seg_key (segments s ! y)"
    proof (cases "y \<in> set A")
      case True
      then show ?thesis unfolding keysJ using fA [OF True] by (simp add: nth_append)
    next
      case False
      note yB = inB [OF y False]
      have "map seg_key (segments post) ! index_of y B = seg_key (segments s ! y)"
        unfolding keysP using ib(1,2) [OF yB] by simp
      moreover have "index_of y B < length (segments post)"
        using arg_cong [OF keysP, of length] ib(1) [OF yB] by simp
      ultimately have "seg_key (segments post ! index_of y B) = seg_key (segments s ! y)"
        by simp
      then show ?thesis
        unfolding keysJ fB(1) [OF yB] using jc [OF yB] by (simp add: nth_append)
    qed
    finally show ?thesis .
  qed
  have parJ: "parents J ! f y = (if ?ps ! y = mnpos then mnpos else f (?ps ! y))"
    if y: "y < ?n" for y
  proof (cases "y \<in> set A")
    case True
    have "parents J ! f y = dest_parent ?ps A 0 mnpos y"
      unfolding parsJ using fA [OF True] by (simp add: nth_append)
    then show ?thesis
      using closedA [OF True] no_npos(1) fA(1) by (auto simp: dest_parent_def)
  next
    case False
    note yB = inB [OF y False]
    have "parents J ! f y = dest_parent pps C (length A) a (index_of y B)"
      unfolding parsJ fB(1) [OF yB] using jc [OF yB] by (simp add: nth_append)
    moreover have pp: "pps ! index_of y B = dest_parent ?ps B 0 mnpos y"
      unfolding pps using ib(1,2) [OF yB] by simp
    ultimately have J: "parents J ! f y =
        (if dest_parent ?ps B 0 mnpos y \<in> set C
         then length A + index_of (dest_parent ?ps B 0 mnpos y) C else a)"
      by (simp add: dest_parent_def)
    show ?thesis
    proof (cases "y = k")
      case True
      then have "dest_parent ?ps B 0 mnpos y = mnpos" using kB by (simp add: dest_parent_def)
      then have "parents J ! f y = a" using J no_npos(2) by simp
      then show ?thesis using True a kA fA(1) by auto
    next
      case k: False
      have up: "?ps ! y \<in> set B" by (rule closedB [OF yB k])
      then have "?ps ! y \<notin> set A" using disj by auto
      moreover have "?ps ! y \<noteq> mnpos" using lt [of "?ps ! y"] up small by auto
      moreover have "dest_parent ?ps B 0 mnpos y = index_of (?ps ! y) B"
        using up by (simp add: dest_parent_def)
      ultimately show ?thesis using J ib(3) [OF up] fB(1) [OF up] by simp
    qed
  qed
  have "distinct (map f [0..<?n])"
    unfolding distinct_map using inj by (auto simp: inj_on_def)
  moreover have "?ps ! y < ?n" if y: "y < ?n" "?ps ! y \<noteq> mnpos" for y
  proof (cases "y \<in> set A")
    case True
    then show ?thesis using closedA [OF True] y(2) lt by simp
  next
    case False
    note yB = inB [OF y(1) False]
    show ?thesis
    proof (cases "y = k")
      case True
      then show ?thesis using kA y(2) lt by simp
    next
      case False
      then show ?thesis using closedB [OF yB False] lt by simp
    qed
  qed
  ultimately have "reordering (map f [0..<?n]) s J"
    unfolding reordering_def using szJ bound keyJ parJ by simp
  then show ?thesis unfolding f_def .
qed

lemma split_join_reordering:
  fixes s :: "'p segment_tree"
  assumes inv: "tree_inv s" and small: "tree_size s \<le> mnpos" and k: "k < tree_size s"
  shows "\<exists>pre post joined f.
           split_at s k = Some (Inr (pre, post)) \<and>
           join_at pre (attachment s k) post = Some (Inr joined) \<and>
           tree_inv joined \<and> reordering f s joined \<and>
           (parents s ! k \<noteq> mnpos \<longrightarrow>
              attachment s k < tree_size pre \<and>
              seg_key (segments pre ! attachment s k) = seg_key (segments s ! (parents s ! k)))"
proof -
  let ?ps = "parents s"
  let ?A = "pre_order s k"
  let ?B = "preorder ?ps (\<lambda>_. True) k"
  let ?a = "attachment s k"
  from split_at_grafted [OF inv small k]
  obtain pre post where split: "split_at s k = Some (Inr (pre, post))"
    and gA: "grafted s ?A mnpos empty_tree pre"
    and gB: "grafted s ?B mnpos empty_tree post"
    by blast
  note P = post_nonroot [OF inv small k gB]
  have inv_pre: "tree_inv pre" and inv_post: "tree_inv post"
    using gA gB by (simp_all add: grafted_def)
  have sz_pre: "tree_size pre = length ?A"
    using grafted_size [OF gA] by (simp add: empty_tree_def tree_size_def)
  have keys_pre: "map seg_key (segments pre) = map (\<lambda>y. seg_key (segments s ! y)) ?A"
    and pars_pre: "parents pre = map (dest_parent ?ps ?A 0 mnpos) ?A"
    using gA by (simp_all add: grafted_def empty_tree_def tree_size_def)
  have keys_post: "map seg_key (segments post) = map (\<lambda>y. seg_key (segments s ! y)) ?B"
    using gB by (simp add: grafted_def empty_tree_def)
  have kA: "?ps ! k \<in> set ?A" if "?ps ! k \<noteq> mnpos"
  proof -
    have "?ps ! k < k" using inv k that by (auto simp: tree_inv_def tree_size_def)
    then have "?ps ! k < tree_size s" using k by simp
    then show ?thesis using split_covers [OF inv small k] P(6) by blast
  qed
  have a_valid: "?a < tree_size pre \<or> ?a = mnpos"
    using kA by (auto simp: attachment_def sz_pre index_of_less)
  from copy_subtree_if_grafted [where pred = yes and keep = "\<lambda>_. True" and p = ?a and x = 0,
      OF inv_post P(3) _ P(2) inv_pre a_valid]
  obtain joined where join: "copy_subtree_if post (node_t ?a 0) yes pre = Some (Inr joined)"
    and gJ: "grafted post (preorder (parents post) (\<lambda>_. True) 0) ?a pre joined"
    by (auto simp: yes_def)
  let ?C = "preorder (parents post) (\<lambda>_. True) 0"
  have join_at: "join_at pre ?a post = Some (Inr joined)"
    using a_valid join by (auto simp: join_at_def)
  have inv_J: "tree_inv joined" using gJ by (simp add: grafted_def)
  note C = post_order_perm [OF inv_post P(2) P(7)]
  have dA: "distinct ?A"
    unfolding pre_order_def by (rule forest_distinct' [OF siblings_roots [OF inv small]])
  have cover: "set ?A \<union> set ?B = {0..<tree_size s}"
  proof (intro set_eqI iffI)
    fix y assume "y \<in> set ?A \<union> set ?B"
    then show "y \<in> {0..<tree_size s}"
      using pre_order_mem(1) [OF inv small, of y k] post_order_mem(1) [OF inv k, of y] by auto
  next
    fix y assume "y \<in> {0..<tree_size s}"
    then show "y \<in> set ?A \<union> set ?B"
      using split_covers [OF inv small k, of y] by auto
  qed
  have disj: "set ?A \<inter> set ?B = {}"
    using split_disjoint [OF inv small k] by auto
  have "reordering
           (map (\<lambda>y. if y \<in> set ?A then index_of y ?A
                     else length ?A + index_of (index_of y ?B) ?C) [0..<tree_size s]) s joined"
  proof (rule relabel_reordering [where post = post and pps = "parents post" and a = ?a and k = k,
        OF small dA preorder_distinct cover disj preorder_distinct])
    show "set ?C = {0..<length ?B}" using C(1) P(1) by simp
    show "map seg_key (segments joined) =
       map (\<lambda>y. seg_key (segments s ! y)) ?A @ map (\<lambda>i. seg_key (segments post ! i)) ?C"
      using gJ keys_pre by (simp add: grafted_def)
    show "map seg_key (segments post) = map (\<lambda>y. seg_key (segments s ! y)) ?B"
      by (rule keys_post)
    show "parents joined =
       map (dest_parent ?ps ?A 0 mnpos) ?A @ map (dest_parent (parents post) ?C (length ?A) ?a) ?C"
      using gJ pars_pre sz_pre by (simp add: grafted_def)
    show "parents post = map (dest_parent ?ps ?B 0 mnpos) ?B" by (rule P(4))
    show "?ps ! y = mnpos \<or> ?ps ! y \<in> set ?A" if "y \<in> set ?A" for y
      using pre_order_mem(3) [OF inv small that] by auto
    show "?ps ! y \<in> set ?B" if "y \<in> set ?B" "y \<noteq> k" for y
      using preorder_closed [OF that] by simp
    show "?ps ! k \<notin> set ?B" by (rule P(6))
    show "?ps ! k \<in> set ?A" if "?ps ! k \<noteq> mnpos" using kA that by simp
    show "?a = (if ?ps ! k = mnpos then mnpos else index_of (?ps ! k) ?A)"
      by (simp add: attachment_def)
  qed
  moreover have "?a < tree_size pre \<and>
        seg_key (segments pre ! ?a) = seg_key (segments s ! (?ps ! k))" if "?ps ! k \<noteq> mnpos"
  proof -
    have a: "?a = index_of (?ps ! k) ?A" using that by (simp add: attachment_def)
    have lt: "?a < length ?A" unfolding a by (rule index_of_less [OF kA [OF that]])
    then have "seg_key (segments pre ! ?a) = map seg_key (segments pre) ! ?a"
      using sz_pre by (simp add: tree_size_def)
    also have "\<dots> = seg_key (segments s ! (?A ! ?a))"
      unfolding keys_pre using lt by simp
    also have "?A ! ?a = ?ps ! k" unfolding a by (rule nth_index_of [OF kA [OF that]])
    finally show ?thesis using lt sz_pre by simp
  qed
  ultimately show ?thesis using split join_at inv_J by blast
qed

lemma twin_split:
  "split_at twin_tree 1 =
     Some (Inr (twin_pre, twin_post))"
  by (simp add: split_at_def copy_subtree_if_def copy_loop_Cons copy_loop_Nil
        tree_to_children_eq upt_0_4 is_root_def yes_def build_def append4_def empty_tree_def
        increment_def tree_size_def twin_tree_eq twin_pre_def twin_post_def mnpos_def)

lemma twin_attachment: "attachment twin_tree 1 = 0"
  by (simp add: attachment_def pre_order_def preorder.simps twin_tree_eq tree_size_def upt_0_4
        mnpos_def)

lemma twin_join:
  "join_at twin_pre 0 twin_post =
     Some (Inr twin_tree_reordered)"
  by (simp add: join_at_def copy_subtree_if_def copy_loop_Cons copy_loop_Nil
        tree_to_children_eq upt_rec yes_def build_def append4_def empty_tree_def
        increment_def tree_size_def twin_tree_reordered_eq twin_pre_def twin_post_def mnpos_def)

text \<open>
  C1. As stated the claim fails: when two siblings have one geometry and tag and only one of
  them has a child, splitting at that one and joining it back appends it after its twin, and
  \<open>equivalent\<close> pairs the twins by index and judges the trees different. It holds when the
  segments under one parent differ in geometry or tag: then \<open>split_at\<close> and \<open>join_at\<close> at
  the attachment point succeed and the result is \<open>equivalent\<close> to the tree. The attachment
  point is the sentinel when the segment is a root, and else the index in \<open>pre\<close> of the copy
  of its parent.
\<close>

theorem split_join_round_trip:
  fixes tree :: "('p::linorder) segment_tree"
  assumes "tree_inv tree" and "tree_size tree \<le> mnpos" and "k < tree_size tree"
    and "distinct_siblings tree"
  shows "\<exists>pre post joined.
           split_at tree k = Some (Inr (pre, post)) \<and>
           join_at pre (attachment tree k) post = Some (Inr joined) \<and>
           equivalent tree joined = Some True \<and>
           (parents tree ! k = mnpos \<longrightarrow> attachment tree k = mnpos) \<and>
           (parents tree ! k \<noteq> mnpos \<longrightarrow>
              attachment tree k < tree_size pre \<and>
              seg_key (segments pre ! attachment tree k) =
                seg_key (segments tree ! (parents tree ! k)))"
proof -
  from split_join_reordering [OF assms(1,2,3)]
  obtain pre post joined f where r:
    "split_at tree k = Some (Inr (pre, post))"
    "join_at pre (attachment tree k) post = Some (Inr joined)"
    "tree_inv joined" "reordering f tree joined"
    "parents tree ! k \<noteq> mnpos \<longrightarrow>
       attachment tree k < tree_size pre \<and>
       seg_key (segments pre ! attachment tree k) = seg_key (segments tree ! (parents tree ! k))"
    by blast
  have "equivalent tree joined = Some True"
    by (rule equivalent_reordering [OF assms(1) r(3) assms(2) r(4) assms(4)])
  moreover have "parents tree ! k = mnpos \<longrightarrow> attachment tree k = mnpos"
    by (simp add: attachment_def)
  ultimately show ?thesis using r(1,2,5) by blast
qed

theorem split_join_round_trip_witness:
  "tree_inv fork_tree \<and> tree_size fork_tree \<le> mnpos \<and> 1 < tree_size fork_tree \<and>
   distinct_siblings fork_tree \<and>
   (\<exists>pre post joined.
      split_at fork_tree 1 = Some (Inr (pre, post)) \<and>
      join_at pre (attachment fork_tree 1) post = Some (Inr joined) \<and>
      equivalent fork_tree joined = Some True)"
proof -
  have i: "tree_inv fork_tree" unfolding fork_tree_def by (rule tree_inv_build)
  have s: "tree_size fork_tree \<le> mnpos" and k: "1 < tree_size fork_tree"
    by (simp_all add: fork_tree_eq tree_size_def mnpos_def)
  have d: "distinct_siblings fork_tree"
    by (simp add: distinct_siblings_def all_less_list fork_tree_eq tree_size_def
        upt_0_4 seg_key_def mnpos_def)
  show ?thesis
    using split_join_round_trip [OF i s k d] i s k d by blast
qed

theorem split_join_round_trip_counterexample:
  "tree_inv twin_tree \<and> 1 < tree_size twin_tree \<and> (1::nat) \<noteq> mnpos \<and>
   split_at twin_tree 1 =
     Some (Inr (twin_pre, twin_post)) \<and>
   parents twin_tree ! 1 = 0 \<and> attachment twin_tree 1 = 0 \<and>
   seg_key (segments twin_pre ! 0) = seg_key (segments twin_tree ! 0) \<and>
   join_at twin_pre 0 twin_post =
     Some (Inr twin_tree_reordered) \<and>
   equivalent twin_tree twin_tree_reordered = Some False"
proof -
  have i: "tree_inv twin_tree" unfolding twin_tree_def by (rule tree_inv_build)
  have k: "1 < tree_size twin_tree" "(1::nat) \<noteq> mnpos" "parents twin_tree ! 1 = 0"
    by (simp_all add: twin_tree_eq tree_size_def mnpos_def)
  have key: "seg_key (segments twin_pre ! 0) =
             seg_key (segments twin_tree ! 0)"
    by (simp add: twin_tree_eq twin_pre_def build_def append4_def empty_tree_def tree_size_def
        seg_key_def increment_def mnpos_def)
  have e: "equivalent twin_tree twin_tree_reordered = Some False"
    by (simp add: equivalent_def equivalent_loop_Cons equivalent_loop_Nil fetch_children_def
        twin_children twin_reordered_children twin_segments seg_key_def mnpos_def)
  show ?thesis using i k key twin_split twin_attachment twin_join e by simp
qed

end
